theory Spec2Isabelle
  imports Main "HOL-Library.Product_Lexorder"
begin

section \<open>The word-search engine of hmf\_game.py\<close>

text \<open>
  A shallow embedding of class \<open>GameEngine\<close>: the scanner (\<open>scan_grid\<close>), the
  generator (\<open>generate_grid\<close> with \<open>_place_word\<close> and \<open>_fill_grid\<close>) and the
  constructor, which seeds the random module of the Python process.
  Python exceptions are values of type \<open>error\<close>; a function that may raise returns
  \<open>error + 'a\<close>. Python integers are \<open>int\<close>. Mutation of the grid, of the match list
  and of the random stream is explicit state passing.
\<close>

subsection \<open>Exceptions\<close>

datatype error =
    ValueError string
  | RuntimeError string
  | IndexError
  | TypeError
  | KeyError

fun is_ValueError :: "error \<Rightarrow> bool" where
  "is_ValueError (ValueError msg) = True"
| "is_ValueError e = False"

subsection \<open>The random module\<close>

text \<open>
  The generator of Python's \<open>random\<close> module is library code. It is taken here as a
  stream of raw draws, the function from the number of draws still to come to the raw
  value; \<open>random.randint\<close> and \<open>random.choice\<close> each take the next raw draw and
  reduce it into their range. Every sequence of outcomes the library can produce is the
  behaviour of some stream. \<open>randint a b\<close> raises ValueError on an empty range and
  \<open>choice\<close> raises IndexError on an empty sequence, both before drawing.
\<close>

type_synonym rng = "nat \<Rightarrow> nat"

definition advance :: "rng \<Rightarrow> rng" where
  "advance g = (\<lambda>i. g (Suc i))"

definition randint :: "int \<Rightarrow> int \<Rightarrow> rng \<Rightarrow> (error + int) \<times> rng" where
  "randint a b g =
     (if b < a then (Inl (ValueError ''empty range for randrange()''), g)
      else (Inr (a + int (g 0 mod nat (b - a + 1))), advance g))"

definition choice :: "'a list \<Rightarrow> rng \<Rightarrow> (error + 'a) \<times> rng" where
  "choice xs g =
     (if xs = [] then (Inl IndexError, g)
      else (Inr (xs ! (g 0 mod length xs)), advance g))"

subsection \<open>Data\<close>

text \<open>A cell under construction is \<open>None\<close>; a filled cell holds a Python string.\<close>

type_synonym cell = "string option"
type_synonym grid = "cell list list"
type_synonym coord = "int \<times> int"
type_synonym dirs = "(string \<times> (int \<times> int)) list"

record match =
  start :: coord
  direction :: string
  cells :: "coord list"

record scan_result =
  scan_count :: int
  scan_matches :: "match list"

record metadata =
  md_size :: int
  md_distribution_mode :: string
  md_allow_overlap :: bool
  md_directions_mode :: string
  md_seed :: "int option"

record puzzle =
  puzzle_grid :: grid
  true_count :: int
  puzzle_matches :: "match list"
  puzzle_metadata :: metadata

record GameEngine =
  seed :: "int option"

datatype seed_arg = IntSeed int | StrSeed string

datatype requested_count = Exact int | Range int int

definition DIRECTIONS :: dirs where
  "DIRECTIONS =
     [(''N'', (-1, 0)), (''NE'', (-1, 1)), (''E'', (0, 1)), (''SE'', (1, 1)),
      (''S'', (1, 0)), (''SW'', (1, -1)), (''W'', (0, -1)), (''NW'', (-1, -1))]"

definition TARGET_WORD :: string where
  "TARGET_WORD = ''FUCK''"

definition LETTERS :: "string list" where
  "LETTERS = [''F'', ''U'', ''C'', ''K'']"

subsection \<open>Python lists\<close>

definition py_range :: "int \<Rightarrow> int list" where
  "py_range n = map int [0..<nat n]"

text \<open>
  The position \<open>xs[i]\<close> denotes: an index below zero counts from the end, and an
  index outside the list denotes none (the access raises IndexError).
\<close>

definition py_index :: "'a list \<Rightarrow> int \<Rightarrow> nat option" where
  "py_index xs i =
     (if 0 \<le> i \<and> i < int (length xs) then Some (nat i)
      else if i < 0 \<and> - int (length xs) \<le> i then Some (nat (int (length xs) + i))
      else None)"

definition py_get :: "'a list \<Rightarrow> int \<Rightarrow> error + 'a" where
  "py_get xs i = (case py_index xs i of None \<Rightarrow> Inl IndexError | Some j \<Rightarrow> Inr (xs ! j))"

definition py_set :: "'a list \<Rightarrow> int \<Rightarrow> 'a \<Rightarrow> error + 'a list" where
  "py_set xs i v =
     (case py_index xs i of None \<Rightarrow> Inl IndexError | Some j \<Rightarrow> Inr (xs[j := v]))"

text \<open>\<open>grid[r][c]\<close> and \<open>grid[r][c] = v\<close>.\<close>

definition grid_get :: "grid \<Rightarrow> int \<Rightarrow> int \<Rightarrow> error + cell" where
  "grid_get gr r c = (case py_get gr r of Inl e \<Rightarrow> Inl e | Inr row \<Rightarrow> py_get row c)"

definition grid_set :: "grid \<Rightarrow> int \<Rightarrow> int \<Rightarrow> cell \<Rightarrow> error + grid" where
  "grid_set gr r c v =
     (case py_get gr r of
        Inl e \<Rightarrow> Inl e
      | Inr row \<Rightarrow>
          (case py_set row c v of
             Inl e \<Rightarrow> Inl e
           | Inr row' \<Rightarrow> py_set gr r row'))"

text \<open>\<open>enumerate(self.TARGET_WORD)\<close>: the letters are one-character strings.\<close>

definition enumerate_word :: "(nat \<times> string) list" where
  "enumerate_word = zip [0..<length TARGET_WORD] (map (\<lambda>ch. [ch]) TARGET_WORD)"

subsection \<open>The constructor\<close>

text \<open>
  \<open>__init__\<close> calls \<open>random.seed\<close>, which replaces the state of the one generator
  of the process. \<open>md5_hex8\<close> is the first 8 hex digits of the MD5 digest read as a
  number and \<open>random_seed\<close> is the stream the library starts from a given integer;
  both are library functions and parameters here. Without a seed the stream is left as
  it is.
\<close>

fun GameEngine_init ::
  "(string \<Rightarrow> int) \<Rightarrow> (int \<Rightarrow> rng) \<Rightarrow> seed_arg option \<Rightarrow> rng \<Rightarrow> GameEngine \<times> rng" where
  "GameEngine_init md5_hex8 random_seed None g = (\<lparr>seed = None\<rparr>, g)"
| "GameEngine_init md5_hex8 random_seed (Some (StrSeed s)) g =
     (let k = md5_hex8 s in (\<lparr>seed = Some k\<rparr>, random_seed k))"
| "GameEngine_init md5_hex8 random_seed (Some (IntSeed k)) g =
     (\<lparr>seed = Some k\<rparr>, random_seed k)"

subsection \<open>Directions\<close>

definition get_allowed_directions :: "string \<Rightarrow> dirs" where
  "get_allowed_directions mode =
     (if mode = ''horizontal'' then
        [(''E'', the (map_of DIRECTIONS ''E'')), (''W'', the (map_of DIRECTIONS ''W''))]
      else if mode = ''horiz_vert'' then
        filter (\<lambda>(k, v). k \<in> set [''N'', ''S'', ''E'', ''W'']) DIRECTIONS
      else DIRECTIONS)"

definition create_empty_grid :: "int \<Rightarrow> grid" where
  "create_empty_grid sz = map (\<lambda>_. map (\<lambda>_. None) (py_range sz)) (py_range sz)"

subsection \<open>The scanner\<close>

definition normalize_match :: "coord list \<Rightarrow> coord list" where
  "normalize_match cs = sort cs"

definition is_duplicate_match :: "coord list \<Rightarrow> match list \<Rightarrow> bool" where
  "is_duplicate_match normalized ms =
     list_ex (\<lambda>m. normalize_match (cells m) = normalized) ms"

text \<open>
  The loop of \<open>_check_word_at_position\<close> over \<open>range(len(TARGET_WORD))\<close>, with the
  cells and the word read so far. Reading a cell that is \<open>None\<close> raises TypeError at
  the string concatenation.
\<close>

fun check_word_loop ::
  "grid \<Rightarrow> int \<Rightarrow> int \<Rightarrow> int \<Rightarrow> int \<Rightarrow> int \<Rightarrow> nat list \<Rightarrow> coord list \<Rightarrow> string
     \<Rightarrow> error + coord list option" where
  "check_word_loop gr start_row start_col dr dc sz [] cs word =
     Inr (if word = TARGET_WORD then Some cs else None)"
| "check_word_loop gr start_row start_col dr dc sz (i # is) cs word =
     (let r = start_row + dr * int i; c = start_col + dc * int i
      in if \<not> (0 \<le> r \<and> r < sz \<and> 0 \<le> c \<and> c < sz) then Inr None
         else (case grid_get gr r c of
                 Inl e \<Rightarrow> Inl e
               | Inr None \<Rightarrow> Inl TypeError
               | Inr (Some s) \<Rightarrow>
                   check_word_loop gr start_row start_col dr dc sz is (cs @ [(r, c)]) (word @ s)))"

definition check_word_at_position ::
  "grid \<Rightarrow> int \<Rightarrow> int \<Rightarrow> int \<Rightarrow> int \<Rightarrow> int \<Rightarrow> error + coord list option" where
  "check_word_at_position gr start_row start_col dr dc sz =
     check_word_loop gr start_row start_col dr dc sz [0..<length TARGET_WORD] [] []"

text \<open>
  The body of the innermost loop of \<open>scan_grid\<close>. \<open>if match:\<close> is false for
  \<open>None\<close> and for an empty list.
\<close>

definition scan_step ::
  "grid \<Rightarrow> int \<Rightarrow> int \<times> int \<times> string \<times> (int \<times> int) \<Rightarrow> match list \<Rightarrow> error + match list" where
  "scan_step gr sz p ms =
     (case p of (row, col, dir_name, (dr, dc)) \<Rightarrow>
        (case check_word_at_position gr row col dr dc sz of
           Inl e \<Rightarrow> Inl e
         | Inr None \<Rightarrow> Inr ms
         | Inr (Some cs) \<Rightarrow>
             if cs = [] then Inr ms
             else if \<not> is_duplicate_match (normalize_match cs) ms
             then Inr (ms @ [\<lparr>start = (row, col), direction = dir_name, cells = cs\<rparr>])
             else Inr ms))"

fun scan_loop ::
  "grid \<Rightarrow> int \<Rightarrow> (int \<times> int \<times> string \<times> (int \<times> int)) list \<Rightarrow> match list
     \<Rightarrow> error + match list" where
  "scan_loop gr sz [] ms = Inr ms"
| "scan_loop gr sz (p # ps) ms =
     (case scan_step gr sz p ms of Inl e \<Rightarrow> Inl e | Inr ms' \<Rightarrow> scan_loop gr sz ps ms')"

text \<open>The three nested loops visit the rows, the columns and the directions in order.\<close>

definition scan_positions :: "int \<Rightarrow> dirs \<Rightarrow> (int \<times> int \<times> string \<times> (int \<times> int)) list" where
  "scan_positions sz allowed_dirs =
     concat (map (\<lambda>row. concat (map (\<lambda>col. map (\<lambda>(dir_name, d). (row, col, dir_name, d))
                                            allowed_dirs)
                                     (py_range sz)))
                 (py_range sz))"

definition scan_grid :: "grid \<Rightarrow> string \<Rightarrow> error + scan_result" where
  "scan_grid gr directions_mode =
     (let sz = int (length gr);
          allowed_dirs = get_allowed_directions directions_mode
      in case scan_loop gr sz (scan_positions sz allowed_dirs) [] of
           Inl e \<Rightarrow> Inl e
         | Inr ms \<Rightarrow> Inr \<lparr>scan_count = int (length ms), scan_matches = ms\<rparr>)"

subsection \<open>Placing a word\<close>

text \<open>
  The validity loop of \<open>_place_word\<close>: \<open>can_place\<close> and the cells visited so far.
\<close>

fun check_placement ::
  "grid \<Rightarrow> int \<Rightarrow> int \<Rightarrow> int \<Rightarrow> int \<Rightarrow> bool \<Rightarrow> (nat \<times> string) list \<Rightarrow> coord list
     \<Rightarrow> error + bool \<times> coord list" where
  "check_placement gr row col dr dc allow_overlap [] cs = Inr (True, cs)"
| "check_placement gr row col dr dc allow_overlap ((i, letter) # rest) cs =
     (let r = row + dr * int i; c = col + dc * int i; cs' = cs @ [(r, c)]
      in case grid_get gr r c of
           Inl e \<Rightarrow> Inl e
         | Inr None \<Rightarrow> check_placement gr row col dr dc allow_overlap rest cs'
         | Inr (Some x) \<Rightarrow>
             if \<not> allow_overlap \<or> x \<noteq> letter then Inr (False, cs')
             else check_placement gr row col dr dc allow_overlap rest cs')"

fun write_word ::
  "grid \<Rightarrow> int \<Rightarrow> int \<Rightarrow> int \<Rightarrow> int \<Rightarrow> (nat \<times> string) list \<Rightarrow> error + grid" where
  "write_word gr row col dr dc [] = Inr gr"
| "write_word gr row col dr dc ((i, letter) # rest) =
     (case grid_set gr (row + dr * int i) (col + dc * int i) (Some letter) of
        Inl e \<Rightarrow> Inl e
      | Inr gr' \<Rightarrow> write_word gr' row col dr dc rest)"

text \<open>
  One pass through the body of the \<open>for _ in range(max_attempts)\<close> loop:
  \<open>Inr None\<close> is \<open>continue\<close> (or falling through), \<open>Inr (Some (grid, match))\<close> is a
  placed word.
\<close>

definition place_try ::
  "grid \<Rightarrow> int \<Rightarrow> dirs \<Rightarrow> bool \<Rightarrow> rng \<Rightarrow> (error + (grid \<times> match) option) \<times> rng" where
  "place_try gr sz allowed_dirs allow_overlap g =
     (case randint 0 (sz - 1) g of
        (Inl e, g1) \<Rightarrow> (Inl e, g1)
      | (Inr row, g1) \<Rightarrow>
     (case randint 0 (sz - 1) g1 of
        (Inl e, g2) \<Rightarrow> (Inl e, g2)
      | (Inr col, g2) \<Rightarrow>
     (case choice (map fst allowed_dirs) g2 of
        (Inl e, g3) \<Rightarrow> (Inl e, g3)
      | (Inr dir_name, g3) \<Rightarrow>
     (case map_of allowed_dirs dir_name of
        None \<Rightarrow> (Inl KeyError, g3)
      | Some (dr, dc) \<Rightarrow>
          (let end_row = row + dr * (int (length TARGET_WORD) - 1);
               end_col = col + dc * (int (length TARGET_WORD) - 1)
           in if \<not> (0 \<le> end_row \<and> end_row < sz \<and> 0 \<le> end_col \<and> end_col < sz)
              then (Inr None, g3)
              else (case check_placement gr row col dr dc allow_overlap enumerate_word [] of
                      Inl e \<Rightarrow> (Inl e, g3)
                    | Inr (can_place, cs) \<Rightarrow>
                        if can_place then
                          (case write_word gr row col dr dc enumerate_word of
                             Inl e \<Rightarrow> (Inl e, g3)
                           | Inr gr' \<Rightarrow>
                               (Inr (Some (gr', \<lparr>start = (row, col), direction = dir_name,
                                               cells = cs\<rparr>)), g3))
                        else (Inr None, g3)))))))"

fun place_word_loop ::
  "nat \<Rightarrow> grid \<Rightarrow> int \<Rightarrow> dirs \<Rightarrow> bool \<Rightarrow> match list \<Rightarrow> rng
     \<Rightarrow> (error + bool \<times> grid \<times> match list) \<times> rng" where
  "place_word_loop 0 gr sz allowed_dirs allow_overlap ms g = (Inr (False, gr, ms), g)"
| "place_word_loop (Suc n) gr sz allowed_dirs allow_overlap ms g =
     (case place_try gr sz allowed_dirs allow_overlap g of
        (Inl e, g') \<Rightarrow> (Inl e, g')
      | (Inr None, g') \<Rightarrow> place_word_loop n gr sz allowed_dirs allow_overlap ms g'
      | (Inr (Some (gr', m)), g') \<Rightarrow> (Inr (True, gr', ms @ [m]), g'))"

definition place_word ::
  "grid \<Rightarrow> int \<Rightarrow> dirs \<Rightarrow> bool \<Rightarrow> match list \<Rightarrow> rng
     \<Rightarrow> (error + bool \<times> grid \<times> match list) \<times> rng" where
  "place_word gr sz allowed_dirs allow_overlap ms g =
     place_word_loop 1000 gr sz allowed_dirs allow_overlap ms g"

subsection \<open>Filling\<close>

definition fill_weights :: "string \<Rightarrow> string list" where
  "fill_weights distribution_mode =
     (if distribution_mode = ''weighted''
      then replicate 4 ''F'' @ replicate 4 ''K'' @ [''U''] @ [''C'']
      else LETTERS)"

fun fill_loop :: "grid \<Rightarrow> string list \<Rightarrow> (int \<times> int) list \<Rightarrow> rng \<Rightarrow> (error + grid) \<times> rng" where
  "fill_loop gr weights [] g = (Inr gr, g)"
| "fill_loop gr weights ((row, col) # ps) g =
     (case grid_get gr row col of
        Inl e \<Rightarrow> (Inl e, g)
      | Inr (Some x) \<Rightarrow> fill_loop gr weights ps g
      | Inr None \<Rightarrow>
          (case choice weights g of
             (Inl e, g') \<Rightarrow> (Inl e, g')
           | (Inr letter, g') \<Rightarrow>
               (case grid_set gr row col (Some letter) of
                  Inl e \<Rightarrow> (Inl e, g')
                | Inr gr' \<Rightarrow> fill_loop gr' weights ps g')))"

definition fill_positions :: "int \<Rightarrow> (int \<times> int) list" where
  "fill_positions sz = concat (map (\<lambda>row. map (\<lambda>col. (row, col)) (py_range sz)) (py_range sz))"

definition fill_grid :: "grid \<Rightarrow> int \<Rightarrow> string \<Rightarrow> rng \<Rightarrow> (error + grid) \<times> rng" where
  "fill_grid gr sz distribution_mode g =
     fill_loop gr (fill_weights distribution_mode) (fill_positions sz) g"

subsection \<open>The generator\<close>

text \<open>\<open>for _ in range(target_count)\<close>: a word that cannot be placed raises ValueError.\<close>

fun place_words ::
  "nat \<Rightarrow> grid \<Rightarrow> int \<Rightarrow> dirs \<Rightarrow> bool \<Rightarrow> match list \<Rightarrow> rng
     \<Rightarrow> (error + grid \<times> match list) \<times> rng" where
  "place_words 0 gr sz allowed_dirs allow_overlap ms g = (Inr (gr, ms), g)"
| "place_words (Suc k) gr sz allowed_dirs allow_overlap ms g =
     (case place_word gr sz allowed_dirs allow_overlap ms g of
        (Inl e, g') \<Rightarrow> (Inl e, g')
      | (Inr (ok, gr', ms'), g') \<Rightarrow>
          if \<not> ok then (Inl (ValueError ''Failed to place word''), g')
          else place_words k gr' sz allowed_dirs allow_overlap ms' g')"

text \<open>
  The body of the \<open>try\<close> of one attempt: an exception, \<open>Inr None\<close> when the scan counts
  another number than the target, or the puzzle.
\<close>

definition attempt ::
  "GameEngine \<Rightarrow> int \<Rightarrow> int \<Rightarrow> string \<Rightarrow> bool \<Rightarrow> string \<Rightarrow> rng
     \<Rightarrow> (error + puzzle option) \<times> rng" where
  "attempt self sz target_count distribution_mode allow_overlap directions_mode g =
     (let allowed_dirs = get_allowed_directions directions_mode
      in case place_words (nat target_count) (create_empty_grid sz) sz allowed_dirs
                allow_overlap [] g of
           (Inl e, g1) \<Rightarrow> (Inl e, g1)
         | (Inr (gr, ms), g1) \<Rightarrow>
             (case fill_grid gr sz distribution_mode g1 of
                (Inl e, g2) \<Rightarrow> (Inl e, g2)
              | (Inr gr', g2) \<Rightarrow>
                  (case scan_grid gr' directions_mode of
                     Inl e \<Rightarrow> (Inl e, g2)
                   | Inr res \<Rightarrow>
                       if scan_count res = target_count then
                         (Inr (Some \<lparr>puzzle_grid = gr', true_count = target_count,
                                     puzzle_matches = scan_matches res,
                                     puzzle_metadata =
                                       \<lparr>md_size = sz,
                                        md_distribution_mode = distribution_mode,
                                        md_allow_overlap = allow_overlap,
                                        md_directions_mode = directions_mode,
                                        md_seed = seed self\<rparr>\<rparr>), g2)
                       else (Inr None, g2))))"

definition exhausted_message :: string where
  "exhausted_message =
     ''Failed to generate valid grid after 25 attempts. '' @
     ''Try smaller grid, allow overlap, reduce count, or use even distribution.''"

text \<open>
  The retry loop: \<open>except ValueError: continue\<close> catches a ValueError of the attempt,
  any other exception leaves the loop, and the loop running out raises RuntimeError.
\<close>

fun generate_loop ::
  "nat \<Rightarrow> GameEngine \<Rightarrow> int \<Rightarrow> int \<Rightarrow> string \<Rightarrow> bool \<Rightarrow> string \<Rightarrow> rng
     \<Rightarrow> (error + puzzle) \<times> rng" where
  "generate_loop 0 self sz target_count distribution_mode allow_overlap directions_mode g =
     (Inl (RuntimeError exhausted_message), g)"
| "generate_loop (Suc n) self sz target_count distribution_mode allow_overlap directions_mode g =
     (case attempt self sz target_count distribution_mode allow_overlap directions_mode g of
        (Inl e, g') \<Rightarrow>
          if is_ValueError e
          then generate_loop n self sz target_count distribution_mode allow_overlap
                 directions_mode g'
          else (Inl e, g')
      | (Inr None, g') \<Rightarrow>
          generate_loop n self sz target_count distribution_mode allow_overlap
            directions_mode g'
      | (Inr (Some p), g') \<Rightarrow> (Inr p, g'))"

definition max_retries :: nat where
  "max_retries = 25"

definition generate_grid ::
  "GameEngine \<Rightarrow> int \<Rightarrow> requested_count \<Rightarrow> string \<Rightarrow> bool \<Rightarrow> string \<Rightarrow> rng
     \<Rightarrow> (error + puzzle) \<times> rng" where
  "generate_grid self sz requested distribution_mode allow_overlap directions_mode g =
     (case (case requested of
              Range min_count max_count \<Rightarrow> randint min_count max_count g
            | Exact n \<Rightarrow> (Inr n, g)) of
        (Inl e, g0) \<Rightarrow> (Inl e, g0)
      | (Inr target_count, g0) \<Rightarrow>
          generate_loop max_retries self sz target_count distribution_mode allow_overlap
            directions_mode g0)"

subsection \<open>Predicates used in the statements\<close>

text \<open>
  An N by N grid, a grid without empty cells, the canonical keys of a match list, the
  grid of the duplicate-prevention test and the count a scan reports.
\<close>

definition square_grid :: "int \<Rightarrow> grid \<Rightarrow> bool" where
  "square_grid sz gr \<longleftrightarrow> int (length gr) = sz \<and> list_all (\<lambda>row. int (length row) = sz) gr"

definition populated :: "grid \<Rightarrow> bool" where
  "populated gr \<longleftrightarrow> list_all (list_all (\<lambda>c. c \<noteq> None)) gr"

definition match_keys :: "match list \<Rightarrow> coord list list" where
  "match_keys ms = map (\<lambda>m. normalize_match (cells m)) ms"

definition fuck_rows :: grid where
  "fuck_rows = replicate 4 [Some ''F'', Some ''U'', Some ''C'', Some ''K'']"

definition scan_count_of :: "grid \<Rightarrow> string \<Rightarrow> error + int" where
  "scan_count_of gr mode = (case scan_grid gr mode of Inl e \<Rightarrow> Inl e | Inr res \<Rightarrow> Inr (scan_count res))"

definition engine0 :: GameEngine where
  "engine0 = \<lparr>seed = None\<rparr>"

definition zero_stream :: rng where
  "zero_stream = (\<lambda>i. 0)"

definition F_row :: "cell list" where
  "F_row = [Some ''F'', Some ''F'', Some ''F'', Some ''F'']"

definition word_row :: "cell list" where
  "word_row = [Some ''F'', Some ''U'', Some ''C'', Some ''K'']"

definition puzzle_top_row :: puzzle where
  "puzzle_top_row =
     \<lparr>puzzle_grid = [word_row, F_row, F_row, F_row],
      true_count = 1,
      puzzle_matches =
        [\<lparr>start = (0, 0), direction = ''E'', cells = [(0, 0), (0, 1), (0, 2), (0, 3)]\<rparr>],
      puzzle_metadata =
        \<lparr>md_size = 4, md_distribution_mode = ''even'', md_allow_overlap = False,
         md_directions_mode = ''horizontal'', md_seed = None\<rparr>\<rparr>"

definition puzzle_all_F :: puzzle where
  "puzzle_all_F =
     \<lparr>puzzle_grid = [F_row, F_row, F_row, F_row],
      true_count = 0,
      puzzle_matches = [],
      puzzle_metadata =
        \<lparr>md_size = 4, md_distribution_mode = ''even'', md_allow_overlap = True,
         md_directions_mode = ''all'', md_seed = None\<rparr>\<rparr>"

text \<open>A stream whose first raw draw is the seed and whose later draws are 0.\<close>

definition first_draw_seed :: "int \<Rightarrow> rng" where
  "first_draw_seed k = (\<lambda>i. if i = 0 then nat k else 0)"

definition md5_zero :: "string \<Rightarrow> int" where
  "md5_zero s = 0"

text \<open>
  Two runs of a caller: the first engine is constructed and generates; or the first
  engine is constructed, then a second engine is constructed, then the first generates.
\<close>

definition first_alone ::
  "(string \<Rightarrow> int) \<Rightarrow> (int \<Rightarrow> rng) \<Rightarrow> seed_arg option \<Rightarrow> int \<Rightarrow> requested_count \<Rightarrow> string
     \<Rightarrow> bool \<Rightarrow> string \<Rightarrow> rng \<Rightarrow> error + puzzle" where
  "first_alone md5_hex8 random_seed s1 sz requested distribution_mode allow_overlap
     directions_mode g =
     (case GameEngine_init md5_hex8 random_seed s1 g of
        (engine1, g1) \<Rightarrow>
          fst (generate_grid engine1 sz requested distribution_mode allow_overlap
                 directions_mode g1))"

definition first_interleaved ::
  "(string \<Rightarrow> int) \<Rightarrow> (int \<Rightarrow> rng) \<Rightarrow> seed_arg option \<Rightarrow> seed_arg option \<Rightarrow> int
     \<Rightarrow> requested_count \<Rightarrow> string \<Rightarrow> bool \<Rightarrow> string \<Rightarrow> rng \<Rightarrow> error + puzzle" where
  "first_interleaved md5_hex8 random_seed s1 s2 sz requested distribution_mode allow_overlap
     directions_mode g =
     (case GameEngine_init md5_hex8 random_seed s1 g of
        (engine1, g1) \<Rightarrow>
          (case GameEngine_init md5_hex8 random_seed s2 g1 of
             (engine2, g2) \<Rightarrow>
               fst (generate_grid engine1 sz requested distribution_mode allow_overlap
                      directions_mode g2)))"

definition with_seed :: "int option \<Rightarrow> puzzle \<Rightarrow> puzzle" where
  "with_seed s p = p\<lparr>puzzle_metadata := (puzzle_metadata p)\<lparr>md_seed := s\<rparr>\<rparr>"

definition seed_value :: "(string \<Rightarrow> int) \<Rightarrow> seed_arg \<Rightarrow> int" where
  "seed_value md5_hex8 s = (case s of IntSeed k \<Rightarrow> k | StrSeed str \<Rightarrow> md5_hex8 str)"

subsection \<open>Placed words\<close>

text \<open>
  The cell of a grid at a coordinate inside it, the coordinates inside an N by N grid, and
  the four cells \<open>_place_word\<close> visits from a start cell along a direction.
\<close>

definition cell_at :: "grid \<Rightarrow> coord \<Rightarrow> cell" where
  "cell_at gr p = gr ! nat (fst p) ! nat (snd p)"

definition in_box :: "int \<Rightarrow> coord \<Rightarrow> bool" where
  "in_box sz p \<longleftrightarrow> 0 \<le> fst p \<and> fst p < sz \<and> 0 \<le> snd p \<and> snd p < sz"

definition step_cell :: "int \<Rightarrow> int \<Rightarrow> int \<Rightarrow> int \<Rightarrow> nat \<Rightarrow> coord" where
  "step_cell row col dr dc i = (row + dr * int i, col + dc * int i)"

definition line_cells :: "int \<Rightarrow> int \<Rightarrow> int \<Rightarrow> int \<Rightarrow> coord list" where
  "line_cells row col dr dc = map (step_cell row col dr dc) [0, 1, 2, 3]"

text \<open>
  A direction table is usable when it is not empty and no direction stands still; the
  letters of the target word as cells.
\<close>

definition dirs_ok :: "dirs \<Rightarrow> bool" where
  "dirs_ok ds \<longleftrightarrow> ds \<noteq> [] \<and> (\<forall>(n, d)\<in>set ds. d \<noteq> (0, 0))"

definition word_cells :: "cell list" where
  "word_cells = [Some ''F'', Some ''U'', Some ''C'', Some ''K'']"

text \<open>
  A match that stands in the grid: its cells are the line from its start along its
  direction, all inside the grid, and they spell the target word. The invariant of
  placement without overlap: every recorded match stands in the grid and no cell belongs
  to two of them.
\<close>

definition placed_word :: "int \<Rightarrow> dirs \<Rightarrow> grid \<Rightarrow> match \<Rightarrow> bool" where
  "placed_word sz ds gr m \<longleftrightarrow>
     (\<exists>dr dc. (direction m, (dr, dc)) \<in> set ds \<and> in_box sz (start m) \<and>
        cells m = line_cells (fst (start m)) (snd (start m)) dr dc \<and>
        (\<forall>p\<in>set (cells m). in_box sz p) \<and>
        map (cell_at gr) (cells m) = word_cells)"

definition placement_inv :: "int \<Rightarrow> dirs \<Rightarrow> grid \<Rightarrow> match list \<Rightarrow> bool" where
  "placement_inv sz ds gr ms \<longleftrightarrow>
     square_grid (max 0 sz) gr \<and> (\<forall>m\<in>set ms. placed_word sz ds gr m) \<and>
     distinct (concat (map cells ms))"


text \<open>No cell belongs to two matches of the list.\<close>

definition disjoint_matches :: "match list \<Rightarrow> bool" where
  "disjoint_matches ms \<longleftrightarrow>
     (\<forall>i<length ms. \<forall>j<length ms. i \<noteq> j \<longrightarrow> set (cells (ms ! i)) \<inter> set (cells (ms ! j)) = {})"





text \<open>
  A stream that sends the second word to the second row, and the puzzle it yields.
\<close>

definition second_row_stream :: rng where
  "second_row_stream = (\<lambda>i. if i = 3 then 1 else 0)"

definition puzzle_two_rows :: puzzle where
  "puzzle_two_rows =
     \<lparr>puzzle_grid = [word_row, word_row, F_row, F_row],
      true_count = 2,
      puzzle_matches =
        [\<lparr>start = (0, 0), direction = ''E'', cells = [(0, 0), (0, 1), (0, 2), (0, 3)]\<rparr>,
         \<lparr>start = (1, 0), direction = ''E'', cells = [(1, 0), (1, 1), (1, 2), (1, 3)]\<rparr>],
      puzzle_metadata =
        \<lparr>md_size = 4, md_distribution_mode = ''even'', md_allow_overlap = False,
         md_directions_mode = ''horizontal'', md_seed = None\<rparr>\<rparr>"

section \<open>Properties\<close>

subsection \<open>The scanner\<close>

lemma allowed_horizontal:
  "get_allowed_directions ''horizontal'' = [(''E'', (0, 1)), (''W'', (0, -1))]"
  by (simp add: get_allowed_directions_def DIRECTIONS_def)

lemma allowed_horiz_vert:
  "get_allowed_directions ''horiz_vert'' =
     [(''N'', (-1, 0)), (''E'', (0, 1)), (''S'', (1, 0)), (''W'', (0, -1))]"
  by (simp add: get_allowed_directions_def DIRECTIONS_def)

lemma allowed_other:
  "mode \<noteq> ''horizontal'' \<Longrightarrow> mode \<noteq> ''horiz_vert'' \<Longrightarrow> get_allowed_directions mode = DIRECTIONS"
  by (simp add: get_allowed_directions_def)

lemma allowed_cases:
  "get_allowed_directions mode = [(''E'', (0, 1)), (''W'', (0, -1))] \<or>
   get_allowed_directions mode = [(''N'', (-1, 0)), (''E'', (0, 1)), (''S'', (1, 0)), (''W'', (0, -1))] \<or>
   get_allowed_directions mode = DIRECTIONS"
  using allowed_horizontal allowed_horiz_vert allowed_other by metis

lemma grid_get_ok:
  assumes "square_grid sz gr" "0 \<le> r" "r < sz" "0 \<le> c" "c < sz"
  shows "grid_get gr r c = Inr (gr ! nat r ! nat c)"
proof -
  have len: "int (length gr) = sz" using assms(1) by (simp add: square_grid_def)
  have "nat r < length gr" using assms(2,3) len by linarith
  then have "gr ! nat r \<in> set gr" by simp
  then have "int (length (gr ! nat r)) = sz"
    using assms(1) by (simp add: square_grid_def list_all_iff)
  then show ?thesis
    using assms len by (simp add: grid_get_def py_get_def py_index_def)
qed

lemma populated_nth:
  assumes "populated gr" "i < length gr" "j < length (gr ! i)"
  shows "\<exists>s. gr ! i ! j = Some s"
proof -
  have "gr ! i \<in> set gr" using assms(2) by simp
  then have "list_all (\<lambda>c. c \<noteq> None) (gr ! i)"
    using assms(1) by (simp add: populated_def list_all_iff)
  then have "gr ! i ! j \<noteq> None" using assms(3) by (simp add: list_all_length)
  then show ?thesis by auto
qed

lemma square_grid_row_length:
  "square_grid sz gr \<Longrightarrow> i < length gr \<Longrightarrow> int (length (gr ! i)) = sz"
  by (simp add: square_grid_def list_all_length)

lemma grid_get_populated:
  assumes "square_grid sz gr" "populated gr" "0 \<le> r" "r < sz" "0 \<le> c" "c < sz"
  shows "\<exists>s. grid_get gr r c = Inr (Some s)"
proof -
  have len: "int (length gr) = sz" using assms(1) by (simp add: square_grid_def)
  have r: "nat r < length gr" using assms(3,4) len by linarith
  have "int (length (gr ! nat r)) = sz" using square_grid_row_length [OF assms(1) r] .
  then have c: "nat c < length (gr ! nat r)" using assms(5,6) by linarith
  from populated_nth [OF assms(2) r c] grid_get_ok [OF assms(1,3,4,5,6)]
  show ?thesis by auto
qed

lemma check_word_loop_total:
  assumes "square_grid sz gr" "populated gr"
  shows "\<exists>res. check_word_loop gr r0 c0 dr dc sz idxs cs w = Inr res"
proof (induction idxs arbitrary: cs w)
  case Nil
  show ?case by simp
next
  case (Cons i idxs)
  show ?case
  proof (cases "0 \<le> r0 + dr * int i \<and> r0 + dr * int i < sz \<and> 0 \<le> c0 + dc * int i \<and> c0 + dc * int i < sz")
    case False
    then show ?thesis by (auto simp: Let_def)
  next
    case True
    then obtain s where "grid_get gr (r0 + dr * int i) (c0 + dc * int i) = Inr (Some s)"
      using grid_get_populated [OF assms] by blast
    then show ?thesis using True Cons.IH by (simp add: Let_def)
  qed
qed

lemma scan_step_total:
  assumes "square_grid sz gr" "populated gr"
  shows "\<exists>ms'. scan_step gr sz p ms = Inr ms'"
proof -
  obtain row col dir_name dr dc where p: "p = (row, col, dir_name, (dr, dc))"
    by (cases p) auto
  obtain res where "check_word_at_position gr row col dr dc sz = Inr res"
    unfolding check_word_at_position_def
    using check_word_loop_total [OF assms] by blast
  then show ?thesis
    by (cases res) (auto simp: scan_step_def p)
qed

lemma scan_loop_total:
  assumes "square_grid sz gr" "populated gr"
  shows "\<exists>ms'. scan_loop gr sz ps ms = Inr ms'"
proof (induction ps arbitrary: ms)
  case Nil
  show ?case by simp
next
  case (Cons p ps)
  obtain ms1 where "scan_step gr sz p ms = Inr ms1"
    using scan_step_total [OF assms] by blast
  then show ?case using Cons.IH [of ms1] by simp
qed

lemma scan_grid_total:
  assumes "square_grid (int (length gr)) gr" "populated gr"
  shows "\<exists>res. scan_grid gr mode = Inr res"
proof -
  obtain ms where "scan_loop gr (int (length gr))
      (scan_positions (int (length gr)) (get_allowed_directions mode)) [] = Inr ms"
    using scan_loop_total [OF assms] by blast
  then show ?thesis by (simp add: scan_grid_def Let_def)
qed

lemma is_duplicate_match_iff:
  "is_duplicate_match k ms \<longleftrightarrow> k \<in> set (match_keys ms)"
  by (auto simp: is_duplicate_match_def match_keys_def list_ex_iff)

lemma scan_step_distinct:
  assumes "scan_step gr sz p ms = Inr ms'" "distinct (match_keys ms)"
  shows "distinct (match_keys ms')"
proof -
  obtain row col dir_name dr dc where p: "p = (row, col, dir_name, (dr, dc))"
    by (cases p) auto
  show ?thesis
    using assms
    by (auto simp: scan_step_def p is_duplicate_match_iff match_keys_def
             split: sum.splits option.splits if_splits)
qed

lemma scan_loop_distinct:
  "scan_loop gr sz ps ms = Inr ms' \<Longrightarrow> distinct (match_keys ms) \<Longrightarrow> distinct (match_keys ms')"
proof (induction ps arbitrary: ms)
  case Nil
  then show ?case by simp
next
  case (Cons p ps)
  then show ?case
    by (auto split: sum.splits dest: scan_step_distinct)
qed

lemma scan_grid_distinct:
  assumes "scan_grid gr mode = Inr res"
  shows "distinct (match_keys (scan_matches res))"
proof -
  from assms obtain ms where
    ms: "scan_loop gr (int (length gr))
           (scan_positions (int (length gr)) (get_allowed_directions mode)) [] = Inr ms"
    and res: "res = \<lparr>scan_count = int (length ms), scan_matches = ms\<rparr>"
    by (auto simp: scan_grid_def Let_def split: sum.splits)
  have "distinct (match_keys ms)"
    using scan_loop_distinct [OF ms] by (simp add: match_keys_def)
  then show ?thesis by (simp add: res)
qed

lemma scan_grid_count:
  "scan_grid gr mode = Inr res \<Longrightarrow> scan_count res = int (length (scan_matches res))"
  by (auto simp: scan_grid_def Let_def split: sum.splits)

text \<open>
  C5: on every fully populated N by N grid and for every directions mode, \<open>scan_grid\<close>
  returns, and no two matches of its result have the same canonical key (the sorted
  list of the match's coordinates).
\<close>

theorem scan_grid_no_duplicate_keys:
  assumes "square_grid (int (length gr)) gr" and "populated gr"
  shows "\<exists>res. scan_grid gr mode = Inr res \<and> distinct (match_keys (scan_matches res))"
  using scan_grid_total [OF assms] scan_grid_distinct by blast

lemma scan_fuck_rows_all:
  "scan_grid fuck_rows ''all'' = Inr
     \<lparr>scan_count = 6,
      scan_matches =
        [\<lparr>start = (0, 0), direction = ''E'', cells = [(0, 0), (0, 1), (0, 2), (0, 3)]\<rparr>,
         \<lparr>start = (0, 0), direction = ''SE'', cells = [(0, 0), (1, 1), (2, 2), (3, 3)]\<rparr>,
         \<lparr>start = (1, 0), direction = ''E'', cells = [(1, 0), (1, 1), (1, 2), (1, 3)]\<rparr>,
         \<lparr>start = (2, 0), direction = ''E'', cells = [(2, 0), (2, 1), (2, 2), (2, 3)]\<rparr>,
         \<lparr>start = (3, 0), direction = ''NE'', cells = [(3, 0), (2, 1), (1, 2), (0, 3)]\<rparr>,
         \<lparr>start = (3, 0), direction = ''E'', cells = [(3, 0), (3, 1), (3, 2), (3, 3)]\<rparr>]\<rparr>"
  by code_simp

text \<open>C5 at the grid of four rows F, U, C, K.\<close>

theorem scan_grid_no_duplicate_keys_witness:
  "square_grid (int (length fuck_rows)) fuck_rows \<and> populated fuck_rows \<and>
   (\<exists>res. scan_grid fuck_rows ''all'' = Inr res \<and> distinct (match_keys (scan_matches res)))"
proof -
  have a: "square_grid (int (length fuck_rows)) fuck_rows" by code_simp
  have b: "populated fuck_rows" by code_simp
  show ?thesis using a b scan_grid_no_duplicate_keys [OF a b, of "''all''"] by simp
qed

text \<open>
  C6, as stated, fails: scanning the grid of four rows F, U, C, K in all 8 directions
  does not report 4 matches.
\<close>

theorem scan_fuck_rows_not_four: "scan_count_of fuck_rows ''all'' \<noteq> Inr 4"
  by (simp add: scan_count_of_def scan_fuck_rows_all)

text \<open>
  C6, amended: the scan reports exactly 6 matches. Besides the four rows read to the
  East, the diagonal from the top left to the South-East and the diagonal from the
  bottom left to the North-East spell the word as well.
\<close>

theorem scan_fuck_rows_six: "scan_count_of fuck_rows ''all'' = Inr 6"
  by (simp add: scan_count_of_def scan_fuck_rows_all)

subsection \<open>The generator: what a returned puzzle satisfies\<close>

lemma generate_top_row:
  "fst (generate_grid engine0 4 (Exact 1) ''even'' False ''horizontal'' zero_stream)
     = Inr puzzle_top_row"
  by code_simp

lemma generate_top_row_range:
  "fst (generate_grid engine0 4 (Range 1 2) ''even'' False ''horizontal'' zero_stream)
     = Inr puzzle_top_row"
  by code_simp

lemma generate_all_F:
  "fst (generate_grid engine0 4 (Exact 0) ''even'' True ''all'' zero_stream)
     = Inr puzzle_all_F"
  by code_simp

lemma fst_eq_pair: "fst x = a \<Longrightarrow> x = (a, snd x)"
  by auto

lemma attempt_success:
  assumes "attempt self sz t dm ov mode g = (Inr (Some p), g')"
  shows "scan_grid (puzzle_grid p) mode = Inr \<lparr>scan_count = t, scan_matches = puzzle_matches p\<rparr>"
    and "true_count p = t"
    and "puzzle_metadata p = \<lparr>md_size = sz, md_distribution_mode = dm, md_allow_overlap = ov,
           md_directions_mode = mode, md_seed = seed self\<rparr>"
  using assms
  by (auto simp: attempt_def Let_def split: prod.splits sum.splits if_splits)

lemma generate_loop_success:
  "generate_loop n self sz t dm ov mode g = (Inr p, g') \<Longrightarrow>
   \<exists>g1. attempt self sz t dm ov mode g1 = (Inr (Some p), g')"
proof (induction n arbitrary: g)
  case 0
  then show ?case by simp
next
  case (Suc n)
  obtain r g1 where a: "attempt self sz t dm ov mode g = (r, g1)"
    by (cases "attempt self sz t dm ov mode g")
  show ?case
  proof (cases r)
    case (Inl e)
    with Suc a show ?thesis by (auto split: if_splits)
  next
    case (Inr q)
    with Suc a show ?thesis by (cases q) auto
  qed
qed

lemma generate_grid_success:
  assumes "fst (generate_grid self sz requested dm ov mode g) = Inr p"
  shows "\<exists>g1 g'. attempt self sz (true_count p) dm ov mode g1 = (Inr (Some p), g')"
proof -
  obtain g' where gg: "generate_grid self sz requested dm ov mode g = (Inr p, g')"
    using assms by (cases "generate_grid self sz requested dm ov mode g") auto
  then obtain t g0 where "generate_loop max_retries self sz t dm ov mode g0 = (Inr p, g')"
    by (auto simp: generate_grid_def split: prod.splits sum.splits)
  then obtain g1 where a: "attempt self sz t dm ov mode g1 = (Inr (Some p), g')"
    using generate_loop_success by blast
  then have "true_count p = t" by (rule attempt_success(2))
  with a show ?thesis by blast
qed

text \<open>
  C1: for every puzzle \<open>generate_grid\<close> returns (for any size, so also for sizes
  from 4, any requested count, distribution mode, overlap flag and directions mode, and
  any state of the random stream), the number of entries of its match list equals its
  \<open>true_count\<close>, and a scan of its grid with the puzzle's own directions mode
  counts exactly \<open>true_count\<close>.
\<close>

theorem generated_puzzle_round_trip:
  assumes "fst (generate_grid self sz requested dm ov mode g) = Inr p"
  shows "int (length (puzzle_matches p)) = true_count p \<and>
         md_directions_mode (puzzle_metadata p) = mode \<and>
         scan_count_of (puzzle_grid p) (md_directions_mode (puzzle_metadata p))
           = Inr (true_count p)"
proof -
  obtain g1 g' where a: "attempt self sz (true_count p) dm ov mode g1 = (Inr (Some p), g')"
    using generate_grid_success [OF assms] by blast
  have s: "scan_grid (puzzle_grid p) mode
             = Inr \<lparr>scan_count = true_count p, scan_matches = puzzle_matches p\<rparr>"
    using attempt_success(1) [OF a] .
  have m: "md_directions_mode (puzzle_metadata p) = mode"
    using attempt_success(3) [OF a] by simp
  have "int (length (puzzle_matches p)) = true_count p"
    using scan_grid_count [OF s] by simp
  with s m show ?thesis by (simp add: scan_count_of_def)
qed

text \<open>
  C1 at a run that returns the puzzle with the word in the top row.
\<close>

theorem generated_puzzle_round_trip_witness:
  "fst (generate_grid engine0 4 (Exact 1) ''even'' False ''horizontal'' zero_stream)
     = Inr puzzle_top_row \<and>
   int (length (puzzle_matches puzzle_top_row)) = true_count puzzle_top_row \<and>
   md_directions_mode (puzzle_metadata puzzle_top_row) = ''horizontal'' \<and>
   scan_count_of (puzzle_grid puzzle_top_row)
     (md_directions_mode (puzzle_metadata puzzle_top_row)) = Inr (true_count puzzle_top_row)"
  using generate_top_row generated_puzzle_round_trip [OF generate_top_row] by blast

text \<open>
  C10: a requested range with \<open>min > max\<close> raises the ValueError of the range draw:
  no attempt is made, no raw draw is consumed, and the error is not the RuntimeError of
  the retry loop.
\<close>

theorem empty_range_raises_ValueError:
  assumes "max_count < min_count"
  shows "generate_grid self sz (Range min_count max_count) dm ov mode g
           = (Inl (ValueError ''empty range for randrange()''), g)"
  using assms by (simp add: generate_grid_def randint_def)

text \<open>
  C10 at the range (5, 3).
\<close>

theorem empty_range_raises_ValueError_witness:
  "(3::int) < 5 \<and>
   generate_grid engine0 4 (Range 5 3) ''even'' True ''all'' zero_stream
     = (Inl (ValueError ''empty range for randrange()''), zero_stream)"
  using empty_range_raises_ValueError [of 3 5 engine0 4 "''even''" True "''all''" zero_stream]
  by simp

lemma randint_in_range:
  assumes "a \<le> b"
  shows "\<exists>t. randint a b g = (Inr t, advance g) \<and> a \<le> t \<and> t \<le> b"
proof -
  have pos: "0 < nat (b - a + 1)" using assms by simp
  have "g 0 mod nat (b - a + 1) < nat (b - a + 1)" using pos by (rule mod_less_divisor)
  then have "int (g 0 mod nat (b - a + 1)) < b - a + 1" by linarith
  then show ?thesis using assms by (simp add: randint_def)
qed

text \<open>
  C7: with a requested range \<open>min \<le> max\<close> one target in the inclusive range is
  drawn by one call of \<open>randint\<close> before the first attempt; the whole retry loop
  runs with this target (the call behaves as the call with the exact count \<open>t\<close> on
  the stream after the draw), and every puzzle returned has \<open>true_count = t\<close> in
  the range.
\<close>

theorem range_target_drawn_once:
  assumes "min_count \<le> max_count"
  shows "\<exists>t. randint min_count max_count g = (Inr t, advance g) \<and>
             min_count \<le> t \<and> t \<le> max_count \<and>
             generate_grid self sz (Range min_count max_count) dm ov mode g
               = generate_loop max_retries self sz t dm ov mode (advance g) \<and>
             generate_grid self sz (Range min_count max_count) dm ov mode g
               = generate_grid self sz (Exact t) dm ov mode (advance g) \<and>
             (\<forall>p. fst (generate_grid self sz (Range min_count max_count) dm ov mode g) = Inr p
                  \<longrightarrow> true_count p = t \<and> min_count \<le> true_count p \<and> true_count p \<le> max_count)"
proof -
  obtain t where t: "randint min_count max_count g = (Inr t, advance g)"
    and lo: "min_count \<le> t" and hi: "t \<le> max_count"
    using randint_in_range [OF assms] by blast
  have e1: "generate_grid self sz (Range min_count max_count) dm ov mode g
              = generate_loop max_retries self sz t dm ov mode (advance g)"
    by (simp add: generate_grid_def t)
  have e2: "generate_grid self sz (Exact t) dm ov mode (advance g)
              = generate_loop max_retries self sz t dm ov mode (advance g)"
    by (simp add: generate_grid_def)
  have tc: "true_count p = t"
    if "fst (generate_grid self sz (Range min_count max_count) dm ov mode g) = Inr p" for p
  proof -
    have "fst (generate_loop max_retries self sz t dm ov mode (advance g)) = Inr p"
      using that e1 by simp
    then have "generate_loop max_retries self sz t dm ov mode (advance g)
                 = (Inr p, snd (generate_loop max_retries self sz t dm ov mode (advance g)))"
      by (rule fst_eq_pair)
    then obtain g1 where "attempt self sz t dm ov mode g1
        = (Inr (Some p), snd (generate_loop max_retries self sz t dm ov mode (advance g)))"
      using generate_loop_success by blast
    then show ?thesis by (rule attempt_success(2))
  qed
  show ?thesis
    using t lo hi e1 e2 tc by (intro exI [of _ t]) auto
qed

text \<open>
  C7 at the range (1, 2).
\<close>

theorem range_target_drawn_once_witness:
  "(1::int) \<le> 2 \<and>
   fst (generate_grid engine0 4 (Range 1 2) ''even'' False ''horizontal'' zero_stream)
     = Inr puzzle_top_row \<and>
   1 \<le> true_count puzzle_top_row \<and> true_count puzzle_top_row \<le> 2"
proof -
  have h: "(1::int) \<le> 2" by simp
  show ?thesis
    using generate_top_row_range
      range_target_drawn_once [OF h, of zero_stream engine0 4 "''even''" False "''horizontal''"]
    by auto
qed

text \<open>
  C8: a puzzle returned for the requested count 0 has \<open>true_count = 0\<close>, no
  matches, and a scan of its grid with the same directions mode counts 0; placing 0
  words leaves the empty grid and the random stream untouched.
\<close>

theorem zero_count_puzzle:
  assumes "fst (generate_grid self sz (Exact 0) dm ov mode g) = Inr p"
  shows "true_count p = 0 \<and> puzzle_matches p = [] \<and>
         scan_count_of (puzzle_grid p) mode = Inr 0 \<and>
         place_words (nat 0) (create_empty_grid sz) sz (get_allowed_directions mode) ov [] g1
           = (Inr (create_empty_grid sz, []), g1)"
proof -
  obtain g' where "generate_loop max_retries self sz 0 dm ov mode g = (Inr p, g')"
    using assms by (cases "generate_loop max_retries self sz 0 dm ov mode g")
      (auto simp: generate_grid_def)
  then obtain g2 where a: "attempt self sz 0 dm ov mode g2 = (Inr (Some p), g')"
    using generate_loop_success by blast
  have t: "true_count p = 0" using attempt_success(2) [OF a] .
  have s: "scan_grid (puzzle_grid p) mode = Inr \<lparr>scan_count = 0, scan_matches = puzzle_matches p\<rparr>"
    using attempt_success(1) [OF a] .
  have "int (length (puzzle_matches p)) = 0" using scan_grid_count [OF s] by simp
  then have "puzzle_matches p = []" by simp
  with t s show ?thesis by (simp add: scan_count_of_def)
qed

text \<open>
  C8 at a run that returns the grid of 16 letters F.
\<close>

theorem zero_count_puzzle_witness:
  "fst (generate_grid engine0 4 (Exact 0) ''even'' True ''all'' zero_stream) = Inr puzzle_all_F \<and>
   true_count puzzle_all_F = 0 \<and> puzzle_matches puzzle_all_F = [] \<and>
   scan_count_of (puzzle_grid puzzle_all_F) ''all'' = Inr 0"
  using generate_all_F zero_count_puzzle [OF generate_all_F] by simp

lemma attempt_self:
  "attempt self sz t dm ov mode g =
     (map_sum id (map_option (with_seed (seed self))) (fst (attempt self' sz t dm ov mode g)),
      snd (attempt self' sz t dm ov mode g))"
  by (auto simp: attempt_def Let_def with_seed_def split: prod.splits sum.splits)

lemma generate_loop_self:
  "generate_loop n self sz t dm ov mode g =
     (map_sum id (with_seed (seed self)) (fst (generate_loop n self' sz t dm ov mode g)),
      snd (generate_loop n self' sz t dm ov mode g))"
proof (induction n arbitrary: g)
  case 0
  show ?case by simp
next
  case (Suc n)
  obtain r g1 where a: "attempt self' sz t dm ov mode g = (r, g1)"
    by (cases "attempt self' sz t dm ov mode g")
  have b: "attempt self sz t dm ov mode g = (map_sum id (map_option (with_seed (seed self))) r, g1)"
    using attempt_self [of self sz t dm ov mode g self'] a by simp
  show ?case
  proof (cases r)
    case (Inl e)
    then show ?thesis using a b Suc.IH [of g1] by simp
  next
    case (Inr q)
    then show ?thesis using a b Suc.IH [of g1] by (cases q) simp_all
  qed
qed

lemma generate_grid_self:
  "fst (generate_grid self sz requested dm ov mode g) =
     map_sum id (with_seed (seed self)) (fst (generate_grid self' sz requested dm ov mode g))"
proof -
  have "generate_grid self sz requested dm ov mode g =
     (map_sum id (with_seed (seed self)) (fst (generate_grid self' sz requested dm ov mode g)),
      snd (generate_grid self' sz requested dm ov mode g))"
    unfolding generate_grid_def
    by (auto split: prod.splits sum.splits requested_count.splits
             simp: generate_loop_self [of _ self _ _ _ _ _ _ self'])
  then show ?thesis by simp
qed

lemma init_seeded:
  "GameEngine_init md5_hex8 random_seed (Some s) g =
     (\<lparr>seed = Some (seed_value md5_hex8 s)\<rparr>, random_seed (seed_value md5_hex8 s))"
  by (cases s) (simp_all add: seed_value_def Let_def)

text \<open>
  C9, amended: the engines share the one random stream of the process. When a second
  engine is constructed with a seed between the construction of the first engine and
  its \<open>generate_grid\<close> call, the first engine returns what a freshly constructed
  engine with the second seed returns (only the seed recorded in the metadata is the
  first engine's); a second engine constructed without a seed changes nothing.
\<close>

theorem interleaved_engine_uses_second_seed:
  "first_interleaved md5_hex8 random_seed (Some s1) (Some s2) sz requested dm ov mode g
     = map_sum id (with_seed (Some (seed_value md5_hex8 s1)))
         (first_alone md5_hex8 random_seed (Some s2) sz requested dm ov mode g') \<and>
   first_interleaved md5_hex8 random_seed (Some s1) None sz requested dm ov mode g
     = first_alone md5_hex8 random_seed (Some s1) sz requested dm ov mode g"
proof -
  have "fst (generate_grid \<lparr>seed = Some (seed_value md5_hex8 s1)\<rparr> sz requested dm ov mode
          (random_seed (seed_value md5_hex8 s2)))
        = map_sum id (with_seed (Some (seed_value md5_hex8 s1)))
            (fst (generate_grid \<lparr>seed = Some (seed_value md5_hex8 s2)\<rparr> sz requested dm ov mode
               (random_seed (seed_value md5_hex8 s2))))"
    using generate_grid_self
      [of "\<lparr>seed = Some (seed_value md5_hex8 s1)\<rparr>" sz requested dm ov mode
          "random_seed (seed_value md5_hex8 s2)" "\<lparr>seed = Some (seed_value md5_hex8 s2)\<rparr>"]
    by simp
  then show ?thesis
    by (simp add: first_interleaved_def first_alone_def init_seeded)
qed

lemma alone_seed_0:
  "first_alone md5_zero first_draw_seed (Some (IntSeed 0)) 4 (Exact 1) ''even'' False
     ''horizontal'' zero_stream = Inr (with_seed (Some 0) puzzle_top_row)"
  by code_simp

lemma interleaved_seed_0_1:
  "first_interleaved md5_zero first_draw_seed (Some (IntSeed 0)) (Some (IntSeed 1)) 4 (Exact 1)
     ''even'' False ''horizontal'' zero_stream =
   Inr \<lparr>puzzle_grid = [F_row, word_row, F_row, F_row],
      true_count = 1,
      puzzle_matches =
        [\<lparr>start = (1, 0), direction = ''E'', cells = [(1, 0), (1, 1), (1, 2), (1, 3)]\<rparr>],
      puzzle_metadata =
        \<lparr>md_size = 4, md_distribution_mode = ''even'', md_allow_overlap = False,
         md_directions_mode = ''horizontal'', md_seed = Some 0\<rparr>\<rparr>"
  by code_simp

text \<open>
  C9, as stated, fails: with seeds 0 and 1 and a random library whose first raw draw
  depends on the seed, the first engine places the word in another row when the second
  engine is constructed in between.
\<close>

theorem interleaved_engine_changes_output:
  "first_interleaved md5_zero first_draw_seed (Some (IntSeed 0)) (Some (IntSeed 1)) 4 (Exact 1)
     ''even'' False ''horizontal'' zero_stream
   \<noteq> first_alone md5_zero first_draw_seed (Some (IntSeed 0)) 4 (Exact 1) ''even'' False
     ''horizontal'' zero_stream"
  unfolding alone_seed_0 interleaved_seed_0_1
  by (simp add: puzzle_top_row_def with_seed_def F_row_def word_row_def)

subsection \<open>Cells and lines\<close>

lemma enumerate_word_eq:
  "enumerate_word = [(0, ''F''), (1, ''U''), (2, ''C''), (3, ''K'')]"
  by (simp add: enumerate_word_def TARGET_WORD_def upt_rec)

lemma grid_get_cell_at:
  "square_grid sz gr \<Longrightarrow> in_box sz (r, c) \<Longrightarrow> grid_get gr r c = Inr (cell_at gr (r, c))"
  by (simp add: grid_get_ok in_box_def cell_at_def)

lemma grid_set_ok:
  assumes sq: "square_grid sz gr" and box: "in_box sz (r, c)"
  shows "\<exists>gr'. grid_set gr r c v = Inr gr' \<and> square_grid sz gr' \<and>
           (\<forall>p. in_box sz p \<longrightarrow> cell_at gr' p = (if p = (r, c) then v else cell_at gr p))"
proof -
  let ?row = "(gr ! nat r)[nat c := v]"
  let ?gr' = "gr[nat r := ?row]"
  have len: "int (length gr) = sz" using sq by (simp add: square_grid_def)
  have r: "nat r < length gr" using box len by (simp add: in_box_def) linarith
  have rowlen: "int (length (gr ! nat r)) = sz" using square_grid_row_length [OF sq r] .
  have c: "nat c < length (gr ! nat r)" using box rowlen by (simp add: in_box_def) linarith
  have get: "py_get gr r = Inr (gr ! nat r)"
    using box len by (simp add: py_get_def py_index_def in_box_def)
  have set1: "py_set (gr ! nat r) c v = Inr ?row"
    using box rowlen by (simp add: py_set_def py_index_def in_box_def)
  have set2: "py_set gr r ?row = Inr ?gr'"
    using box len by (simp add: py_set_def py_index_def in_box_def)
  have eq: "grid_set gr r c v = Inr ?gr'"
    by (simp add: grid_set_def get set1 set2)
  have sq': "square_grid sz ?gr'"
    unfolding square_grid_def list_all_length
  proof (intro conjI allI impI)
    show "int (length ?gr') = sz" using len by simp
  next
    fix n assume "n < length ?gr'"
    then have n: "n < length gr" by simp
    show "int (length (?gr' ! n)) = sz"
      using n rowlen square_grid_row_length [OF sq n] by (cases "n = nat r") simp_all
  qed
  have cells: "cell_at ?gr' p = (if p = (r, c) then v else cell_at gr p)" if p: "in_box sz p" for p
  proof -
    obtain r' c' where pp: "p = (r', c')" by (cases p)
    have r': "nat r' < length gr" using p len by (simp add: in_box_def pp) linarith
    have rr: "nat r' = nat r \<longleftrightarrow> r' = r" using p box by (auto simp: in_box_def pp)
    have cc: "nat c' = nat c \<longleftrightarrow> c' = c" using p box by (auto simp: in_box_def pp)
    have c': "nat c' < length (gr ! nat r')"
      using square_grid_row_length [OF sq r'] p by (simp add: in_box_def pp) linarith
    show ?thesis
      using r r' c c' rr cc by (auto simp: cell_at_def pp nth_list_update)
  qed
  show ?thesis using eq sq' cells by blast
qed

lemma randint_size:
  assumes "0 < sz"
  shows "\<exists>row. randint 0 (sz - 1) g = (Inr row, advance g) \<and> 0 \<le> row \<and> row < sz"
proof -
  have "(0::int) \<le> sz - 1" using assms by simp
  then obtain t where t: "randint 0 (sz - 1) g = (Inr t, advance g)"
    and lo: "0 \<le> t" and hi: "t \<le> sz - 1"
    using randint_in_range by blast
  have "t < sz" using hi by linarith
  with t lo show ?thesis by blast
qed

lemma randint_size_empty:
  assumes "sz \<le> 0"
  shows "\<exists>msg. randint 0 (sz - 1) g = (Inl (ValueError msg), g)"
  using assms by (simp add: randint_def)

lemma choice_in_set:
  assumes "xs \<noteq> []"
  shows "\<exists>x. choice xs g = (Inr x, advance g) \<and> x \<in> set xs"
  using assms by (simp add: choice_def)

lemma step_cell_in_box:
  assumes "in_box sz (row, col)" and "in_box sz (row + dr * 3, col + dc * 3)" and "i \<le> 3"
  shows "in_box sz (step_cell row col dr dc i)"
proof -
  have "i = 0 \<or> i = 1 \<or> i = 2 \<or> i = 3" using assms(3) by linarith
  then show ?thesis
    using assms(1,2) by (auto simp: in_box_def step_cell_def)
qed

text \<open>What the validity loop decides, for any list of numbered letters.\<close>

lemma check_placement_ok:
  assumes sq: "square_grid sz gr"
    and box: "\<forall>(i, l)\<in>set ws. in_box sz (step_cell row col dr dc i)"
  shows "\<exists>b cs'. check_placement gr row col dr dc ov ws cs = Inr (b, cs') \<and>
           (b \<longrightarrow> cs' = cs @ map (\<lambda>(i, l). step_cell row col dr dc i) ws \<and>
                  (\<forall>(i, l)\<in>set ws. cell_at gr (step_cell row col dr dc i) = None \<or>
                      (ov \<and> cell_at gr (step_cell row col dr dc i) = Some l)))"
  using box
proof (induction ws arbitrary: cs)
  case Nil
  show ?case by auto
next
  case (Cons w ws)
  obtain i l where w: "w = (i, l)" by (cases w)
  have b: "in_box sz (row + dr * int i, col + dc * int i)"
    using Cons.prems by (simp add: w step_cell_def)
  have g: "grid_get gr (row + dr * int i) (col + dc * int i)
             = Inr (cell_at gr (step_cell row col dr dc i))"
    using grid_get_cell_at [OF sq b] by (simp add: step_cell_def)
  have rest: "\<forall>(i, l)\<in>set ws. in_box sz (step_cell row col dr dc i)"
    using Cons.prems by simp
  from Cons.IH [OF rest, of "cs @ [(row + dr * int i, col + dc * int i)]"]
  obtain b' cs' where
    ih: "check_placement gr row col dr dc ov ws (cs @ [(row + dr * int i, col + dc * int i)])
           = Inr (b', cs')"
    and ih2: "b' \<longrightarrow> cs' = (cs @ [(row + dr * int i, col + dc * int i)])
                 @ map (\<lambda>(i, l). step_cell row col dr dc i) ws \<and>
              (\<forall>(i, l)\<in>set ws. cell_at gr (step_cell row col dr dc i) = None \<or>
                      (ov \<and> cell_at gr (step_cell row col dr dc i) = Some l))"
    by blast
  show ?case
  proof (cases "cell_at gr (step_cell row col dr dc i)")
    case None
    then show ?thesis using ih ih2 g by (simp add: w Let_def step_cell_def)
  next
    case (Some x)
    show ?thesis
    proof (cases "\<not> ov \<or> x \<noteq> l")
      case True
      then have "check_placement gr row col dr dc ov (w # ws) cs
                   = Inr (False, cs @ [(row + dr * int i, col + dc * int i)])"
        using Some g by (simp add: w Let_def)
      then show ?thesis by blast
    next
      case False
      then show ?thesis using Some ih ih2 g by (simp add: w Let_def step_cell_def)
    qed
  qed
qed

lemma write_word_ok:
  assumes sq: "square_grid sz gr"
    and box: "\<forall>(i, l)\<in>set ws. in_box sz (step_cell row col dr dc i)"
    and dist: "distinct (map (\<lambda>(i, l). step_cell row col dr dc i) ws)"
  shows "\<exists>gr'. write_word gr row col dr dc ws = Inr gr' \<and> square_grid sz gr' \<and>
           (\<forall>(i, l)\<in>set ws. cell_at gr' (step_cell row col dr dc i) = Some l) \<and>
           (\<forall>p. in_box sz p \<longrightarrow> p \<notin> set (map (\<lambda>(i, l). step_cell row col dr dc i) ws)
                \<longrightarrow> cell_at gr' p = cell_at gr p)"
  using sq box dist
proof (induction ws arbitrary: gr)
  case Nil
  then show ?case by simp
next
  case (Cons w ws)
  obtain i l where w: "w = (i, l)" by (cases w)
  let ?p = "step_cell row col dr dc i"
  have b: "in_box sz (row + dr * int i, col + dc * int i)"
    using Cons.prems(2) by (simp add: w step_cell_def)
  from grid_set_ok [OF Cons.prems(1) b, of "Some l"]
  obtain gr1 where s: "grid_set gr (row + dr * int i) (col + dc * int i) (Some l) = Inr gr1"
    and sq1: "square_grid sz gr1"
    and c1: "\<forall>p. in_box sz p \<longrightarrow> cell_at gr1 p = (if p = ?p then Some l else cell_at gr p)"
    by (auto simp: step_cell_def)
  have rest: "\<forall>(i, l)\<in>set ws. in_box sz (step_cell row col dr dc i)"
    using Cons.prems(2) by simp
  have drest: "distinct (map (\<lambda>(i, l). step_cell row col dr dc i) ws)"
    using Cons.prems(3) by simp
  have notin: "?p \<notin> set (map (\<lambda>(i, l). step_cell row col dr dc i) ws)"
    using Cons.prems(3) by (simp add: w)
  from Cons.IH [OF sq1 rest drest]
  obtain gr' where wr: "write_word gr1 row col dr dc ws = Inr gr'"
    and sq': "square_grid sz gr'"
    and new: "\<forall>(i, l)\<in>set ws. cell_at gr' (step_cell row col dr dc i) = Some l"
    and old: "\<forall>p. in_box sz p \<longrightarrow> p \<notin> set (map (\<lambda>(i, l). step_cell row col dr dc i) ws)
                \<longrightarrow> cell_at gr' p = cell_at gr1 p"
    by blast
  have pbox: "in_box sz ?p" using b by (simp add: step_cell_def)
  have "cell_at gr' ?p = cell_at gr1 ?p" using old pbox notin by blast
  also have "\<dots> = Some l" using c1 [rule_format, OF pbox] by simp
  finally have head: "cell_at gr' ?p = Some l" .
  have eq: "write_word gr row col dr dc (w # ws) = Inr gr'"
    using s wr by (simp add: w)
  have new': "\<forall>(i, l)\<in>set (w # ws). cell_at gr' (step_cell row col dr dc i) = Some l"
    using new head by (simp add: w)
  have old': "\<forall>p. in_box sz p \<longrightarrow> p \<notin> set (map (\<lambda>(i, l). step_cell row col dr dc i) (w # ws))
                \<longrightarrow> cell_at gr' p = cell_at gr p"
    using old c1 by (simp add: w)
  show ?case using eq sq' new' old' by blast
qed

lemma line_cells_distinct:
  assumes "(dr, dc) \<noteq> (0, 0)"
  shows "distinct (line_cells row col dr dc)"
  using assms by (auto simp: line_cells_def step_cell_def)

lemma line_cells_enumerate:
  "map (\<lambda>(i, l). step_cell row col dr dc i) enumerate_word = line_cells row col dr dc"
  by (simp add: enumerate_word_eq line_cells_def)

subsection \<open>One placement try\<close>

lemma allowed_dirs_ok: "dirs_ok (get_allowed_directions mode)"
  using allowed_cases [of mode] by (auto simp: dirs_ok_def DIRECTIONS_def)

lemma line_cells_in_box:
  assumes "in_box sz (row, col)" and "in_box sz (row + dr * 3, col + dc * 3)"
  shows "\<forall>p\<in>set (line_cells row col dr dc). in_box sz p"
  using step_cell_in_box [OF assms] by (simp add: line_cells_def)

lemma enumerate_word_in_box:
  assumes "in_box sz (row, col)" and "in_box sz (row + dr * 3, col + dc * 3)"
  shows "\<forall>(i, l)\<in>set enumerate_word. in_box sz (step_cell row col dr dc i)"
  using step_cell_in_box [OF assms] by (simp add: enumerate_word_eq)

lemma place_try_cases:
  assumes sq0: "square_grid (max 0 sz) gr" and ok: "dirs_ok ds"
  obtains (raise) msg g' where "place_try gr sz ds ov g = (Inl (ValueError msg), g')"
  | (retry) g' where "place_try gr sz ds ov g = (Inr None, g')"
  | (placed) g' gr' row col name dr dc where
      "place_try gr sz ds ov g =
         (Inr (Some (gr', \<lparr>start = (row, col), direction = name,
                           cells = line_cells row col dr dc\<rparr>)), g')"
      "(name, (dr, dc)) \<in> set ds"
      "in_box sz (row, col)"
      "\<forall>p\<in>set (line_cells row col dr dc). in_box sz p"
      "square_grid (max 0 sz) gr'"
      "\<forall>p\<in>set (line_cells row col dr dc). cell_at gr p = None \<or> ov"
      "map (cell_at gr') (line_cells row col dr dc) = word_cells"
      "\<forall>p. in_box sz p \<longrightarrow> p \<notin> set (line_cells row col dr dc) \<longrightarrow> cell_at gr' p = cell_at gr p"
proof (cases "sz \<le> 0")
  case True
  then obtain msg where "randint 0 (sz - 1) g = (Inl (ValueError msg), g)"
    using randint_size_empty by blast
  then have "place_try gr sz ds ov g = (Inl (ValueError msg), g)"
    by (simp add: place_try_def)
  then show ?thesis by (rule raise)
next
  case False
  then have pos: "0 < sz" by simp
  then have mx: "max 0 sz = sz" by simp
  have sq: "square_grid sz gr" using sq0 mx by simp
  obtain row where row: "randint 0 (sz - 1) g = (Inr row, advance g)"
    and row_box: "0 \<le> row" "row < sz"
    using randint_size [OF pos] by blast
  obtain col where col: "randint 0 (sz - 1) (advance g) = (Inr col, advance (advance g))"
    and col_box: "0 \<le> col" "col < sz"
    using randint_size [OF pos] by blast
  let ?g3 = "advance (advance (advance g))"
  have ne: "map fst ds \<noteq> []" using ok by (simp add: dirs_ok_def)
  obtain name where name: "choice (map fst ds) (advance (advance g)) = (Inr name, ?g3)"
    and name_in: "name \<in> set (map fst ds)"
    using choice_in_set [OF ne] by blast
  have "map_of ds name \<noteq> None" using name_in by (simp add: map_of_eq_None_iff)
  then obtain dr dc where look: "map_of ds name = Some (dr, dc)" by auto
  have mem: "(name, (dr, dc)) \<in> set ds" using look by (rule map_of_SomeD)
  have nz: "(dr, dc) \<noteq> (0, 0)" using ok mem by (auto simp: dirs_ok_def)
  have start_box: "in_box sz (row, col)" using row_box col_box by (simp add: in_box_def)
  show ?thesis
  proof (cases "in_box sz (row + dr * 3, col + dc * 3)")
    case False
    then have "place_try gr sz ds ov g = (Inr None, ?g3)"
      by (simp add: place_try_def row col name look TARGET_WORD_def in_box_def)
    then show ?thesis by (rule retry)
  next
    case True
    have unfold: "place_try gr sz ds ov g =
        (case check_placement gr row col dr dc ov enumerate_word [] of
           Inl e \<Rightarrow> (Inl e, ?g3)
         | Inr (can_place, cs) \<Rightarrow>
             if can_place then
               (case write_word gr row col dr dc enumerate_word of
                  Inl e \<Rightarrow> (Inl e, ?g3)
                | Inr gr' \<Rightarrow>
                    (Inr (Some (gr', \<lparr>start = (row, col), direction = name, cells = cs\<rparr>)), ?g3))
             else (Inr None, ?g3))"
      using True by (simp add: place_try_def row col name look TARGET_WORD_def in_box_def)
    have wbox: "\<forall>(i, l)\<in>set enumerate_word. in_box sz (step_cell row col dr dc i)"
      using enumerate_word_in_box [OF start_box True] .
    have lbox: "\<forall>p\<in>set (line_cells row col dr dc). in_box sz p"
      using line_cells_in_box [OF start_box True] .
    obtain b cs where chk: "check_placement gr row col dr dc ov enumerate_word [] = Inr (b, cs)"
      and chk2: "b \<longrightarrow> cs = [] @ map (\<lambda>(i, l). step_cell row col dr dc i) enumerate_word \<and>
                  (\<forall>(i, l)\<in>set enumerate_word. cell_at gr (step_cell row col dr dc i) = None \<or>
                      (ov \<and> cell_at gr (step_cell row col dr dc i) = Some l))"
      using check_placement_ok [OF sq wbox, of ov "[]"] by blast
    show ?thesis
    proof (cases b)
      case False
      then have "place_try gr sz ds ov g = (Inr None, ?g3)"
        by (simp add: unfold chk)
      then show ?thesis by (rule retry)
    next
      case True
      then have cs: "cs = line_cells row col dr dc"
        using chk2 by (simp add: line_cells_enumerate)
      have free: "\<forall>p\<in>set (line_cells row col dr dc). cell_at gr p = None \<or> ov"
        using chk2 True by (auto simp: enumerate_word_eq line_cells_def)
      have dist: "distinct (map (\<lambda>(i, l). step_cell row col dr dc i) enumerate_word)"
        using line_cells_distinct [OF nz] by (simp add: line_cells_enumerate)
      obtain gr' where wr: "write_word gr row col dr dc enumerate_word = Inr gr'"
        and sq1: "square_grid sz gr'"
        and new: "\<forall>(i, l)\<in>set enumerate_word. cell_at gr' (step_cell row col dr dc i) = Some l"
        and old: "\<forall>p. in_box sz p \<longrightarrow>
                    p \<notin> set (map (\<lambda>(i, l). step_cell row col dr dc i) enumerate_word) \<longrightarrow>
                    cell_at gr' p = cell_at gr p"
        using write_word_ok [OF sq wbox dist] by blast
      have sq': "square_grid (max 0 sz) gr'" using sq1 mx by simp
      have res: "place_try gr sz ds ov g =
          (Inr (Some (gr', \<lparr>start = (row, col), direction = name,
                            cells = line_cells row col dr dc\<rparr>)), ?g3)"
        using True by (simp add: unfold chk wr cs)
      have letters: "map (cell_at gr') (line_cells row col dr dc) = word_cells"
        using new by (simp add: enumerate_word_eq line_cells_def word_cells_def)
      have old': "\<forall>p. in_box sz p \<longrightarrow> p \<notin> set (line_cells row col dr dc) \<longrightarrow>
                    cell_at gr' p = cell_at gr p"
        using old by (simp add: line_cells_enumerate)
      show ?thesis
        using placed [OF res mem start_box lbox sq' free letters old'] .
    qed
  qed
qed

subsection \<open>The invariant of placement\<close>

lemma placed_word_filled:
  assumes "placed_word sz ds gr m" and "p \<in> set (cells m)"
  shows "cell_at gr p \<noteq> None"
proof -
  have "map (cell_at gr) (cells m) = word_cells" using assms(1) by (auto simp: placed_word_def)
  then have "cell_at gr p \<in> set word_cells" using assms(2) by (metis image_eqI set_map)
  then show ?thesis by (auto simp: word_cells_def)
qed

lemma placed_word_in_box:
  "placed_word sz ds gr m \<Longrightarrow> p \<in> set (cells m) \<Longrightarrow> in_box sz p"
  by (auto simp: placed_word_def)

lemma placed_word_length:
  "placed_word sz ds gr m \<Longrightarrow> length (cells m) = 4"
  by (auto simp: placed_word_def line_cells_def)

lemma placed_word_unchanged:
  assumes pw: "placed_word sz ds gr m"
    and same: "\<forall>p\<in>set (cells m). cell_at gr' p = cell_at gr p"
  shows "placed_word sz ds gr' m"
proof -
  have e: "map (cell_at gr') (cells m) = map (cell_at gr) (cells m)"
    using same by simp
  show ?thesis using pw unfolding placed_word_def e .
qed

lemma placement_inv_extend:
  assumes inv: "placement_inv sz ds gr ms"
    and ok: "dirs_ok ds"
    and mem: "(name, (dr, dc)) \<in> set ds"
    and start_box: "in_box sz (row, col)"
    and lbox: "\<forall>p\<in>set (line_cells row col dr dc). in_box sz p"
    and sq': "square_grid (max 0 sz) gr'"
    and free: "\<forall>p\<in>set (line_cells row col dr dc). cell_at gr p = None"
    and letters: "map (cell_at gr') (line_cells row col dr dc) = word_cells"
    and old: "\<forall>p. in_box sz p \<longrightarrow> p \<notin> set (line_cells row col dr dc) \<longrightarrow>
                cell_at gr' p = cell_at gr p"
  shows "placement_inv sz ds gr'
           (ms @ [\<lparr>start = (row, col), direction = name, cells = line_cells row col dr dc\<rparr>])"
proof -
  let ?m = "\<lparr>start = (row, col), direction = name, cells = line_cells row col dr dc\<rparr>"
  have nz: "(dr, dc) \<noteq> (0, 0)" using ok mem by (auto simp: dirs_ok_def)
  have disj: "p \<notin> set (line_cells row col dr dc)" if "m \<in> set ms" "p \<in> set (cells m)" for m p
  proof
    assume "p \<in> set (line_cells row col dr dc)"
    then have "cell_at gr p = None" using free by blast
    moreover have "placed_word sz ds gr m"
      using inv that(1) by (simp add: placement_inv_def)
    then have "cell_at gr p \<noteq> None"
      using that(2) by (rule placed_word_filled)
    ultimately show False by simp
  qed
  have olds: "placed_word sz ds gr' m" if m: "m \<in> set ms" for m
  proof -
    have pw: "placed_word sz ds gr m" using inv m by (simp add: placement_inv_def)
    have "\<forall>p\<in>set (cells m). cell_at gr' p = cell_at gr p"
      using old disj [OF m] placed_word_in_box [OF pw] by blast
    then show ?thesis using placed_word_unchanged [OF pw] by blast
  qed
  have new: "placed_word sz ds gr' ?m"
    using mem start_box lbox letters by (auto simp: placed_word_def)
  have d1: "distinct (concat (map cells ms))" using inv by (simp add: placement_inv_def)
  have d2: "distinct (line_cells row col dr dc)" using line_cells_distinct [OF nz] .
  have d3: "set (concat (map cells ms)) \<inter> set (line_cells row col dr dc) = {}"
    using disj by auto
  have "distinct (concat (map cells (ms @ [?m])))"
    using d1 d2 d3 by simp
  then show ?thesis
    using sq' olds new by (auto simp: placement_inv_def)
qed

text \<open>The inner loop without overlap keeps the invariant.\<close>

lemma place_word_loop_inv:
  assumes inv: "placement_inv sz ds gr ms" and ok: "dirs_ok ds"
  shows "(\<exists>msg g'. place_word_loop n gr sz ds False ms g = (Inl (ValueError msg), g')) \<or>
         (\<exists>g'. place_word_loop n gr sz ds False ms g = (Inr (False, gr, ms), g')) \<or>
         (\<exists>g' gr' m. place_word_loop n gr sz ds False ms g = (Inr (True, gr', ms @ [m]), g') \<and>
            placement_inv sz ds gr' (ms @ [m]))"
proof (induction n arbitrary: g)
  case 0
  show ?case by simp
next
  case (Suc n)
  have sq: "square_grid (max 0 sz) gr" using inv by (simp add: placement_inv_def)
  from sq ok show ?case
  proof (cases rule: place_try_cases [where ov = False and g = g])
    case (raise msg g')
    then show ?thesis by simp
  next
    case (retry g')
    then show ?thesis using Suc.IH [of g'] by simp
  next
    case (placed g' gr' row col name dr dc)
    have free: "\<forall>p\<in>set (line_cells row col dr dc). cell_at gr p = None"
      using placed(6) by simp
    have "placement_inv sz ds gr'
           (ms @ [\<lparr>start = (row, col), direction = name, cells = line_cells row col dr dc\<rparr>])"
      using placement_inv_extend [OF inv ok placed(2) placed(3) placed(4) placed(5) free
          placed(7) placed(8)] .
    then show ?thesis using placed(1) by simp
  qed
qed


lemma place_words_inv:
  assumes inv: "placement_inv sz ds gr ms" and ok: "dirs_ok ds"
  shows "(\<exists>msg g'. place_words k gr sz ds False ms g = (Inl (ValueError msg), g')) \<or>
         (\<exists>gr' ms' g'. place_words k gr sz ds False ms g = (Inr (gr', ms'), g') \<and>
            placement_inv sz ds gr' ms' \<and> length ms' = length ms + k)"
  using inv
proof (induction k arbitrary: gr ms g)
  case 0
  then show ?case by simp
next
  case (Suc k)
  from place_word_loop_inv [OF Suc.prems ok, of 1000 g]
  consider (raise) msg g' where "place_word gr sz ds False ms g = (Inl (ValueError msg), g')"
    | (fail) g' where "place_word gr sz ds False ms g = (Inr (False, gr, ms), g')"
    | (placed) g' gr' m where "place_word gr sz ds False ms g = (Inr (True, gr', ms @ [m]), g')"
        "placement_inv sz ds gr' (ms @ [m])"
    unfolding place_word_def by blast
  then show ?case
  proof cases
    case raise
    then show ?thesis by simp
  next
    case fail
    then show ?thesis by simp
  next
    case placed
    from Suc.IH [OF placed(2), of g'] placed(1) show ?thesis by auto
  qed
qed



lemma in_box_set: "{p. in_box sz p} = {0..<sz} \<times> {0..<sz}"
  by (auto simp: in_box_def)


lemma square_empty_grid: "square_grid (max 0 sz) (create_empty_grid sz)"
  by (auto simp: square_grid_def create_empty_grid_def py_range_def list_all_iff)

lemma placement_inv_empty: "placement_inv sz ds (create_empty_grid sz) []"
  by (simp add: placement_inv_def square_empty_grid)

subsection \<open>Filling and scanning a grid with placed words\<close>

lemma in_box_max: "in_box (max 0 sz) p = in_box sz p"
  by (auto simp: in_box_def)

lemma set_py_range: "set (py_range n) = {0..<n}"
proof (cases "0 \<le> n")
  case True
  then show ?thesis by (simp add: py_range_def image_int_atLeastLessThan)
next
  case False
  then show ?thesis by (simp add: py_range_def)
qed

lemma set_fill_positions: "set (fill_positions sz) = {p. in_box sz p}"
proof -
  have "set (fill_positions sz) = {0..<sz} \<times> {0..<sz}"
    by (auto simp: fill_positions_def set_py_range)
  then show ?thesis by (simp add: in_box_set)
qed

lemma fill_weights_nonempty: "fill_weights dm \<noteq> []"
  by (simp add: fill_weights_def LETTERS_def)

lemma fill_loop_ok:
  assumes w: "ws \<noteq> []"
  shows "square_grid n gr \<Longrightarrow> \<forall>p\<in>set ps. in_box n p \<Longrightarrow>
         \<exists>gr' g'. fill_loop gr ws ps g = (Inr gr', g') \<and> square_grid n gr' \<and>
           (\<forall>p. in_box n p \<longrightarrow> cell_at gr p \<noteq> None \<longrightarrow> cell_at gr' p = cell_at gr p) \<and>
           (\<forall>p\<in>set ps. cell_at gr' p \<noteq> None)"
proof (induction ps arbitrary: gr g)
  case Nil
  then show ?case by simp
next
  case (Cons q ps)
  obtain row col where q: "q = (row, col)" by (cases q)
  have qbox: "in_box n (row, col)" using Cons.prems(2) by (simp add: q)
  have rest: "\<forall>p\<in>set ps. in_box n p" using Cons.prems(2) by simp
  have get: "grid_get gr row col = Inr (cell_at gr (row, col))"
    using grid_get_cell_at [OF Cons.prems(1) qbox] .
  show ?case
  proof (cases "cell_at gr (row, col)")
    case (Some x)
    from Cons.IH [OF Cons.prems(1) rest, of g]
    obtain gr' g' where f: "fill_loop gr ws ps g = (Inr gr', g')"
      and sq': "square_grid n gr'"
      and keep: "\<forall>p. in_box n p \<longrightarrow> cell_at gr p \<noteq> None \<longrightarrow> cell_at gr' p = cell_at gr p"
      and full: "\<forall>p\<in>set ps. cell_at gr' p \<noteq> None"
      by blast
    have "cell_at gr' (row, col) = cell_at gr (row, col)"
      using keep qbox Some by simp
    then have head: "cell_at gr' (row, col) \<noteq> None" using Some by simp
    have eq: "fill_loop gr ws (q # ps) g = (Inr gr', g')"
      using f get Some by (simp add: q)
    show ?thesis using eq sq' keep full head by (auto simp: q)
  next
    case None
    obtain letter where ch: "choice ws g = (Inr letter, advance g)"
      using choice_in_set [OF w] by blast
    from grid_set_ok [OF Cons.prems(1) qbox, of "Some letter"]
    obtain gr1 where s: "grid_set gr row col (Some letter) = Inr gr1"
      and sq1: "square_grid n gr1"
      and c1: "\<forall>p. in_box n p \<longrightarrow>
                 cell_at gr1 p = (if p = (row, col) then Some letter else cell_at gr p)"
      by blast
    from Cons.IH [OF sq1 rest, of "advance g"]
    obtain gr' g' where f: "fill_loop gr1 ws ps (advance g) = (Inr gr', g')"
      and sq': "square_grid n gr'"
      and keep1: "\<forall>p. in_box n p \<longrightarrow> cell_at gr1 p \<noteq> None \<longrightarrow> cell_at gr' p = cell_at gr1 p"
      and full: "\<forall>p\<in>set ps. cell_at gr' p \<noteq> None"
      by blast
    have eq: "fill_loop gr ws (q # ps) g = (Inr gr', g')"
      using f get None ch s by (simp add: q)
    have h1: "cell_at gr1 (row, col) = Some letter" using c1 [rule_format, OF qbox] by simp
    have "cell_at gr' (row, col) = cell_at gr1 (row, col)"
      using keep1 [rule_format, OF qbox] h1 by simp
    then have head: "cell_at gr' (row, col) \<noteq> None" using h1 by simp
    have keep: "cell_at gr' p = cell_at gr p" if pb: "in_box n p" and pn: "cell_at gr p \<noteq> None" for p
    proof -
      have "p \<noteq> (row, col)" using pn None by auto
      then have e: "cell_at gr1 p = cell_at gr p" using c1 [rule_format, OF pb] by simp
      then have "cell_at gr1 p \<noteq> None" using pn by simp
      then show ?thesis using keep1 [rule_format, OF pb] e by simp
    qed
    show ?thesis using eq sq' keep full head by (auto simp: q)
  qed
qed

lemma populated_from_cells:
  assumes sq: "square_grid n gr" and full: "\<forall>p. in_box n p \<longrightarrow> cell_at gr p \<noteq> None"
  shows "populated gr"
  unfolding populated_def list_all_length
proof (intro allI impI)
  fix i j assume i: "i < length gr" and j: "j < length (gr ! i)"
  have len: "int (length gr) = n" using sq by (simp add: square_grid_def)
  have rowlen: "int (length (gr ! i)) = n" using square_grid_row_length [OF sq i] .
  have "in_box n (int i, int j)" using i j len rowlen by (auto simp: in_box_def)
  then have "cell_at gr (int i, int j) \<noteq> None" using full by blast
  then show "gr ! i ! j \<noteq> None" by (simp add: cell_at_def)
qed

lemma fill_grid_ok:
  assumes sq: "square_grid (max 0 sz) gr"
  shows "\<exists>gr' g'. fill_grid gr sz dm g = (Inr gr', g') \<and> square_grid (max 0 sz) gr' \<and>
           populated gr' \<and>
           (\<forall>p. in_box sz p \<longrightarrow> cell_at gr p \<noteq> None \<longrightarrow> cell_at gr' p = cell_at gr p)"
proof -
  have box: "\<forall>p\<in>set (fill_positions sz). in_box (max 0 sz) p"
    by (simp add: set_fill_positions in_box_max)
  from fill_loop_ok [OF fill_weights_nonempty sq box, of dm g]
  obtain gr' g' where f: "fill_loop gr (fill_weights dm) (fill_positions sz) g = (Inr gr', g')"
    and sq': "square_grid (max 0 sz) gr'"
    and keep: "\<forall>p. in_box (max 0 sz) p \<longrightarrow> cell_at gr p \<noteq> None \<longrightarrow>
                 cell_at gr' p = cell_at gr p"
    and full: "\<forall>p\<in>set (fill_positions sz). cell_at gr' p \<noteq> None"
    by blast
  have "\<forall>p. in_box (max 0 sz) p \<longrightarrow> cell_at gr' p \<noteq> None"
    using full by (simp add: set_fill_positions in_box_max)
  then have pop: "populated gr'" using populated_from_cells [OF sq'] by blast
  show ?thesis
    using f sq' pop keep by (auto simp: fill_grid_def in_box_max)
qed

text \<open>Reading the word where it stands.\<close>

lemma check_word_loop_read:
  assumes sq: "square_grid n gr"
  shows "\<forall>i\<in>set idxs. in_box n (step_cell row col dr dc i) \<Longrightarrow>
         \<forall>i\<in>set idxs. cell_at gr (step_cell row col dr dc i) = Some (f i) \<Longrightarrow>
         check_word_loop gr row col dr dc n idxs cs w =
           Inr (if w @ concat (map f idxs) = TARGET_WORD
                then Some (cs @ map (step_cell row col dr dc) idxs) else None)"
proof (induction idxs arbitrary: cs w)
  case Nil
  show ?case by simp
next
  case (Cons i idxs)
  have b: "in_box n (row + dr * int i, col + dc * int i)"
    using Cons.prems(1) by (simp add: step_cell_def)
  have g: "grid_get gr (row + dr * int i) (col + dc * int i) = Inr (Some (f i))"
    using grid_get_cell_at [OF sq b] Cons.prems(2) by (simp add: step_cell_def)
  have r1: "\<forall>i\<in>set idxs. in_box n (step_cell row col dr dc i)" using Cons.prems(1) by simp
  have r2: "\<forall>i\<in>set idxs. cell_at gr (step_cell row col dr dc i) = Some (f i)"
    using Cons.prems(2) by simp
  have bounds: "0 \<le> row + dr * int i \<and> row + dr * int i < n \<and>
                0 \<le> col + dc * int i \<and> col + dc * int i < n"
    using b by (simp add: in_box_def)
  show ?case
    using bounds g Cons.IH [OF r1 r2, of "cs @ [(row + dr * int i, col + dc * int i)]" "w @ f i"]
    by (simp add: Let_def step_cell_def)
qed

lemma check_word_at_placed:
  assumes sq: "square_grid n gr"
    and box: "\<forall>p\<in>set (line_cells row col dr dc). in_box n p"
    and letters: "map (cell_at gr) (line_cells row col dr dc) = word_cells"
  shows "check_word_at_position gr row col dr dc n = Inr (Some (line_cells row col dr dc))"
proof -
  let ?f = "\<lambda>i::nat. [TARGET_WORD ! i]"
  have idx: "[0..<length TARGET_WORD] = [0, 1, 2, 3]"
    by (simp add: TARGET_WORD_def upt_rec)
  have b: "\<forall>i\<in>set [0, 1, 2, 3]. in_box n (step_cell row col dr dc i)"
    using box by (simp add: line_cells_def)
  have l: "\<forall>i\<in>set [0, 1, 2, 3]. cell_at gr (step_cell row col dr dc i) = Some (?f i)"
    using letters by (simp add: line_cells_def word_cells_def TARGET_WORD_def)
  have "check_word_at_position gr row col dr dc n
          = check_word_loop gr row col dr dc n [0, 1, 2, 3] [] []"
    by (simp only: check_word_at_position_def idx)
  also have "\<dots> = Inr (if [] @ concat (map ?f [0, 1, 2, 3]) = TARGET_WORD
               then Some ([] @ map (step_cell row col dr dc) [0, 1, 2, 3]) else None)"
    by (rule check_word_loop_read [OF sq b l])
  also have "\<dots> = Inr (Some (line_cells row col dr dc))"
    by (simp add: line_cells_def TARGET_WORD_def)
  finally show ?thesis .
qed

lemma scan_step_mono:
  assumes "scan_step gr sz p ms = Inr ms'"
  shows "set (match_keys ms) \<subseteq> set (match_keys ms')"
proof -
  obtain row col dir_name dr dc where p: "p = (row, col, dir_name, (dr, dc))"
    by (cases p) auto
  show ?thesis
    using assms
    by (auto simp: scan_step_def p match_keys_def split: sum.splits option.splits if_splits)
qed

lemma scan_step_finds:
  assumes "scan_step gr sz (row, col, name, (dr, dc)) ms = Inr ms'"
    and "check_word_at_position gr row col dr dc sz = Inr (Some cs)" and "cs \<noteq> []"
  shows "normalize_match cs \<in> set (match_keys ms')"
  using assms
  by (auto simp: scan_step_def is_duplicate_match_iff match_keys_def split: if_splits)

lemma scan_loop_mono:
  "scan_loop gr sz ps ms = Inr ms' \<Longrightarrow> set (match_keys ms) \<subseteq> set (match_keys ms')"
proof (induction ps arbitrary: ms)
  case Nil
  then show ?case by simp
next
  case (Cons p ps)
  then obtain ms1 where s: "scan_step gr sz p ms = Inr ms1"
    and l: "scan_loop gr sz ps ms1 = Inr ms'"
    by (auto split: sum.splits)
  show ?case using scan_step_mono [OF s] Cons.IH [OF l] by blast
qed

lemma scan_loop_finds:
  assumes chk: "check_word_at_position gr row col dr dc sz = Inr (Some cs)" and ne: "cs \<noteq> []"
  shows "scan_loop gr sz ps ms = Inr ms' \<Longrightarrow> (row, col, name, (dr, dc)) \<in> set ps \<Longrightarrow>
         normalize_match cs \<in> set (match_keys ms')"
proof (induction ps arbitrary: ms)
  case Nil
  then show ?case by simp
next
  case (Cons p ps)
  then obtain ms1 where s: "scan_step gr sz p ms = Inr ms1"
    and l: "scan_loop gr sz ps ms1 = Inr ms'"
    by (auto split: sum.splits)
  show ?case
  proof (cases "p = (row, col, name, (dr, dc))")
    case True
    then have "normalize_match cs \<in> set (match_keys ms1)"
      using scan_step_finds [OF _ chk ne] s by simp
    then show ?thesis using scan_loop_mono [OF l] by blast
  next
    case False
    then have "(row, col, name, (dr, dc)) \<in> set ps" using Cons.prems(2) by simp
    then show ?thesis using Cons.IH [OF l] by blast
  qed
qed

lemma scan_positions_member:
  assumes "0 \<le> row" "row < sz" "0 \<le> col" "col < sz" "(name, d) \<in> set ds"
  shows "(row, col, name, d) \<in> set (scan_positions sz ds)"
proof -
  have r: "row \<in> set (py_range sz)" using assms(1,2) by (simp add: set_py_range)
  have c: "col \<in> set (py_range sz)" using assms(3,4) by (simp add: set_py_range)
  have "(row, col, name, d) \<in> (\<lambda>(dir_name, d). (row, col, dir_name, d)) ` set ds"
    using assms(5) by force
  then show ?thesis
    unfolding scan_positions_def using r c by auto
qed

lemma scan_grid_finds:
  assumes sq: "square_grid n gr" and pw: "placed_word n ds gr m"
    and ds: "ds = get_allowed_directions mode"
    and sc: "scan_grid gr mode = Inr res"
  shows "normalize_match (cells m) \<in> set (match_keys (scan_matches res))"
proof -
  have len: "int (length gr) = n" using sq by (simp add: square_grid_def)
  from pw obtain dr dc where mem: "(direction m, (dr, dc)) \<in> set ds"
    and sb: "in_box n (start m)"
    and cs: "cells m = line_cells (fst (start m)) (snd (start m)) dr dc"
    and box: "\<forall>p\<in>set (cells m). in_box n p"
    and letters: "map (cell_at gr) (cells m) = word_cells"
    unfolding placed_word_def by blast
  have chk: "check_word_at_position gr (fst (start m)) (snd (start m)) dr dc n
               = Inr (Some (cells m))"
    using check_word_at_placed [OF sq, of "fst (start m)" "snd (start m)" dr dc] box letters
    unfolding cs by simp
  have ne: "cells m \<noteq> []" unfolding cs by (simp add: line_cells_def)
  have pos: "(fst (start m), snd (start m), direction m, (dr, dc)) \<in> set (scan_positions n ds)"
    using sb mem by (intro scan_positions_member) (simp_all add: in_box_def)
  from sc obtain ms where
    l: "scan_loop gr n (scan_positions n ds) [] = Inr ms" and r: "scan_matches res = ms"
    by (auto simp: scan_grid_def Let_def len ds split: sum.splits)
  show ?thesis using scan_loop_finds [OF chk ne l pos] r by simp
qed

lemma attempt_structure:
  assumes "attempt self sz t dm ov mode g = (Inr (Some p), g')"
  shows "\<exists>gr ms g1. place_words (nat t) (create_empty_grid sz) sz (get_allowed_directions mode)
                      ov [] g = (Inr (gr, ms), g1) \<and>
                    fill_grid gr sz dm g1 = (Inr (puzzle_grid p), g')"
  using assms
  by (auto simp: attempt_def Let_def split: prod.splits sum.splits if_splits)

subsection \<open>Matches without overlap\<close>

lemma placed_word_max: "placed_word (max 0 sz) ds gr m = placed_word sz ds gr m"
  by (simp add: placed_word_def in_box_max)

lemma set_normalize_match: "set (normalize_match cs) = set cs"
  by (simp add: normalize_match_def)

lemma keys_distinct_of_disjoint:
  "distinct (concat (map cells ms)) \<Longrightarrow> \<forall>m\<in>set ms. cells m \<noteq> [] \<Longrightarrow> distinct (match_keys ms)"
proof (induction ms)
  case Nil
  show ?case by (simp add: match_keys_def)
next
  case (Cons m ms)
  have d: "distinct (concat (map cells ms))" using Cons.prems(1) by simp
  have ne: "\<forall>m\<in>set ms. cells m \<noteq> []" using Cons.prems(2) by simp
  have disj: "set (cells m) \<inter> set (concat (map cells ms)) = {}"
    using Cons.prems(1) by simp
  have "normalize_match (cells m) \<notin> set (match_keys ms)"
  proof
    assume "normalize_match (cells m) \<in> set (match_keys ms)"
    then obtain m' where m': "m' \<in> set ms"
      and k: "normalize_match (cells m') = normalize_match (cells m)"
      by (auto simp: match_keys_def)
    have "set (normalize_match (cells m')) = set (normalize_match (cells m))"
      using k by simp
    then have e: "set (cells m') = set (cells m)"
      by (simp only: set_normalize_match)
    have "cells m \<noteq> []" using Cons.prems(2) by simp
    then obtain x where x: "x \<in> set (cells m)" by (cases "cells m") auto
    then have "x \<in> set (cells m')" using e by simp
    then have "x \<in> set (concat (map cells ms))" using m' by auto
    then show False using disj x by auto
  qed
  then have "normalize_match (cells m) \<notin> set (map (\<lambda>m. normalize_match (cells m)) ms)"
    by (simp add: match_keys_def)
  moreover have "distinct (map (\<lambda>m. normalize_match (cells m)) ms)"
    using Cons.IH [OF d ne] by (simp add: match_keys_def)
  ultimately have "distinct (map (\<lambda>m. normalize_match (cells m)) (m # ms))"
    by simp
  then show ?case by (simp add: match_keys_def)
qed

lemma cells_disjoint_of_keys:
  assumes "distinct (concat (map cells ms))" and "a \<in> set ms" and "b \<in> set ms"
    and "normalize_match (cells a) \<noteq> normalize_match (cells b)"
  shows "set (cells a) \<inter> set (cells b) = {}"
proof -
  have ne: "cells a \<noteq> cells b" using assms(4) by auto
  have ia: "cells a \<in> set (map cells ms)" and ib: "cells b \<in> set (map cells ms)"
    using assms(2,3) by simp_all
  note c = assms(1) [unfolded distinct_concat_iff]
  show ?thesis
    using c [THEN conjunct2, THEN conjunct2, rule_format, of "cells a" "cells b"] ia ib ne
    by simp
qed

lemma attempt_no_overlap_disjoint:
  assumes a: "attempt self sz t dm False mode g = (Inr (Some p), g')"
  shows "disjoint_matches (puzzle_matches p)"
proof -
  let ?ds = "get_allowed_directions mode"
  let ?sm = "puzzle_matches p"
  obtain gr ms g1 where
    pw: "place_words (nat t) (create_empty_grid sz) sz ?ds False [] g = (Inr (gr, ms), g1)"
    and fl: "fill_grid gr sz dm g1 = (Inr (puzzle_grid p), g')"
    using attempt_structure [OF a] by blast
  have "(\<exists>msg g'. place_words (nat t) (create_empty_grid sz) sz ?ds False [] g
            = (Inl (ValueError msg), g')) \<or>
        (\<exists>gr' ms' g'. place_words (nat t) (create_empty_grid sz) sz ?ds False [] g
            = (Inr (gr', ms'), g') \<and>
           placement_inv sz ?ds gr' ms' \<and> length ms' = length ([] :: match list) + nat t)"
    by (rule place_words_inv [OF placement_inv_empty allowed_dirs_ok])
  then have inv: "placement_inv sz ?ds gr ms" and len: "length ms = nat t"
    using pw by auto
  have sq: "square_grid (max 0 sz) gr" using inv by (simp add: placement_inv_def)
  obtain sq': "square_grid (max 0 sz) (puzzle_grid p)"
    and keep: "\<forall>q. in_box sz q \<longrightarrow> cell_at gr q \<noteq> None \<longrightarrow>
                 cell_at (puzzle_grid p) q = cell_at gr q"
    using fill_grid_ok [OF sq, of dm g1] fl by auto
  have sc: "scan_grid (puzzle_grid p) mode = Inr \<lparr>scan_count = t, scan_matches = ?sm\<rparr>"
    using attempt_success(1) [OF a] .
  have found: "normalize_match (cells m) \<in> set (match_keys ?sm)" if m: "m \<in> set ms" for m
  proof -
    have p0: "placed_word sz ?ds gr m" using inv m by (simp add: placement_inv_def)
    have "\<forall>q\<in>set (cells m). cell_at (puzzle_grid p) q = cell_at gr q"
      using keep placed_word_in_box [OF p0] placed_word_filled [OF p0] by blast
    then have "placed_word sz ?ds (puzzle_grid p) m"
      using placed_word_unchanged [OF p0] by blast
    then have p1: "placed_word (max 0 sz) ?ds (puzzle_grid p) m"
      by (simp add: placed_word_max)
    show ?thesis using scan_grid_finds [OF sq' p1 refl sc] by simp
  qed
  have sub: "set (match_keys ms) \<subseteq> set (match_keys ?sm)"
    using found by (auto simp: match_keys_def)
  have dcat: "distinct (concat (map cells ms))" using inv by (simp add: placement_inv_def)
  have ne: "\<forall>m\<in>set ms. cells m \<noteq> []"
  proof
    fix m assume "m \<in> set ms"
    then have "placed_word sz ?ds gr m" using inv by (simp add: placement_inv_def)
    then have "length (cells m) = 4" by (rule placed_word_length)
    then show "cells m \<noteq> []" by auto
  qed
  have d1: "distinct (match_keys ms)" using keys_distinct_of_disjoint [OF dcat ne] .
  have d2: "distinct (match_keys ?sm)" using scan_grid_distinct [OF sc] by simp
  have "t = int (length ?sm)" using scan_grid_count [OF sc] by simp
  then have len2: "length ?sm = length ms" using len by simp
  have "card (set (match_keys ms)) = card (set (match_keys ?sm))"
    using distinct_card [OF d1] distinct_card [OF d2] len2 by (simp add: match_keys_def)
  then have eq: "set (match_keys ms) = set (match_keys ?sm)"
    using sub by (intro card_subset_eq) simp_all
  show ?thesis
    unfolding disjoint_matches_def
  proof (intro allI impI)
    fix i j assume i: "i < length ?sm" and j: "j < length ?sm" and ij: "i \<noteq> j"
    have ki: "match_keys ?sm ! i = normalize_match (cells (?sm ! i))"
      using i by (simp add: match_keys_def)
    have kj: "match_keys ?sm ! j = normalize_match (cells (?sm ! j))"
      using j by (simp add: match_keys_def)
    have lk: "length (match_keys ?sm) = length ?sm" by (simp add: match_keys_def)
    have "match_keys ?sm ! i \<noteq> match_keys ?sm ! j"
      using d2 i j ij lk by (simp add: nth_eq_iff_index_eq)
    then have diff: "normalize_match (cells (?sm ! i)) \<noteq> normalize_match (cells (?sm ! j))"
      using ki kj by simp
    have "match_keys ?sm ! i \<in> set (match_keys ?sm)" using i lk by simp
    then have "normalize_match (cells (?sm ! i)) \<in> set (match_keys ms)"
      using eq ki by simp
    then obtain a where a: "a \<in> set ms"
      and ka: "normalize_match (cells a) = normalize_match (cells (?sm ! i))"
      by (auto simp: match_keys_def)
    have "match_keys ?sm ! j \<in> set (match_keys ?sm)" using j lk by simp
    then have "normalize_match (cells (?sm ! j)) \<in> set (match_keys ms)"
      using eq kj by simp
    then obtain b where b: "b \<in> set ms"
      and kb: "normalize_match (cells b) = normalize_match (cells (?sm ! j))"
      by (auto simp: match_keys_def)
    have "set (cells a) \<inter> set (cells b) = {}"
      using cells_disjoint_of_keys [OF dcat a b] diff ka kb by simp
    moreover have "set (normalize_match (cells (?sm ! i))) = set (normalize_match (cells a))"
      using ka by simp
    then have "set (cells (?sm ! i)) = set (cells a)"
      by (simp only: set_normalize_match)
    moreover have "set (normalize_match (cells (?sm ! j))) = set (normalize_match (cells b))"
      using kb by simp
    then have "set (cells (?sm ! j)) = set (cells b)"
      by (simp only: set_normalize_match)
    ultimately show "set (cells (?sm ! i)) \<inter> set (cells (?sm ! j)) = {}" by simp
  qed
qed

text \<open>
  C4: in every puzzle \<open>generate_grid\<close> returns when called with
  \<open>allow_overlap = False\<close>, the cell lists of two different matches share no cell.
  The matches of the puzzle are those of the scan of the filled grid; the scan finds each
  placed word, reports as many matches as were placed, and so reports the placed words,
  which the overlap test of \<open>_place_word\<close> keeps apart.
\<close>

theorem no_overlap_matches_disjoint:
  assumes "fst (generate_grid self sz requested dm False mode g) = Inr p"
  shows "disjoint_matches (puzzle_matches p)"
proof -
  obtain g1 g' where "attempt self sz (true_count p) dm False mode g1 = (Inr (Some p), g')"
    using generate_grid_success [OF assms] by blast
  then show ?thesis by (rule attempt_no_overlap_disjoint)
qed

lemma generate_two_rows:
  "fst (generate_grid engine0 4 (Exact 2) ''even'' False ''horizontal'' second_row_stream)
     = Inr puzzle_two_rows"
  by code_simp

text \<open>
  C4 at a 4 by 4 puzzle with two words, generated without overlap: the words stand in the
  first two rows.
\<close>

theorem no_overlap_matches_disjoint_witness:
  "fst (generate_grid engine0 4 (Exact 2) ''even'' False ''horizontal'' second_row_stream)
     = Inr puzzle_two_rows \<and>
   length (puzzle_matches puzzle_two_rows) = 2 \<and>
   disjoint_matches (puzzle_matches puzzle_two_rows)"
  using generate_two_rows no_overlap_matches_disjoint [OF generate_two_rows]
  by (simp add: puzzle_two_rows_def)

subsection \<open>The retry budget\<close>










subsection \<open>Consumption of the random stream\<close>





























end
